theory Spec2Isabelle
  imports Main
    "HOL-Library.Char_ord"
    "HOL-Library.List_Lexorder"
    "HOL-Library.Product_Lexorder"
    "HOL-Library.Option_ord"
    "HOL-Library.Sublist"
    "HOL-Library.Multiset"
    "HOL-Library.Word"
begin

section \<open>Assets and their ordering (pkg/packages/release.go)\<close>

text \<open>
  Go strings are byte sequences; \<open>string\<close> is a list of 8-bit characters. The
  comparison \<open>a.Name < b.Name\<close> of Go is the bytewise lexicographic order, which is the
  order of lists over the order of characters by their code.
\<close>

record Asset =
  Name :: string
  URL :: string
  secondary :: bool

text \<open>\<open>strings.HasSuffix(s, suffix)\<close>:
  \<open>len(s) >= len(suffix) && s[len(s)-len(suffix):] == suffix\<close>.\<close>

definition HasSuffix :: "string \<Rightarrow> string \<Rightarrow> bool" where
  "HasSuffix s suf = (length suf \<le> length s \<and> drop (length s - length suf) s = suf)"

text \<open>\<open>func (a Asset) Less(b Asset) bool\<close>, branch by branch.\<close>

definition Asset_Less :: "Asset \<Rightarrow> Asset \<Rightarrow> bool" where
  "Asset_Less a b =
    (if HasSuffix (Name a) ''-pre-install-jobs.yaml'' then True
     else if HasSuffix (Name b) ''-pre-install-jobs.yaml'' then False
     else if HasSuffix (Name a) ''-crds.yaml'' then True
     else if HasSuffix (Name b) ''-crds.yaml'' then False
     else if HasSuffix (Name a) ''-post-install-jobs.yaml'' then False
     else if HasSuffix (Name b) ''-post-install-jobs.yaml'' then True
     else if HasSuffix (Name a) ''-sugar-controller.yaml'' then False
     else if HasSuffix (Name b) ''-sugar-controller.yaml'' then True
     else if secondary a \<noteq> secondary b then secondary b
     else Name a < Name b)"

text \<open>An asset that carries none of the four markers the comparator looks for.\<close>

definition no_marker :: "Asset \<Rightarrow> bool" where
  "no_marker b =
    (\<not> HasSuffix (Name b) ''-pre-install-jobs.yaml'' \<and>
     \<not> HasSuffix (Name b) ''-crds.yaml'' \<and>
     \<not> HasSuffix (Name b) ''-post-install-jobs.yaml'' \<and>
     \<not> HasSuffix (Name b) ''-sugar-controller.yaml'')"

section \<open>Semantic versions (golang.org/x/mod/semver, v0.4.1 as pinned by go.mod)\<close>

text \<open>
  \<open>Release.Less\<close>, \<open>HandleRelease\<close> and \<open>LastN\<close> call \<open>semver.Compare\<close> and
  \<open>semver.MajorMinor\<close> of the Go module \<open>golang.org/x/mod\<close>. The functions below
  follow that package function by function, on byte strings. Neither function returns
  an error: the package documents that an invalid version string compares less than a
  valid one, that all invalid strings compare equal, and that \<open>MajorMinor\<close> of an
  invalid string is the empty string.
\<close>

record parsed =
  major :: string
  minor :: string
  patch :: string
  prerelease :: string
  build :: string

definition isDigit :: "char \<Rightarrow> bool" where
  "isDigit c = (CHR ''0'' \<le> c \<and> c \<le> CHR ''9'')"

text \<open>\<open>isIdentChar\<close>: \<open>[0-9A-Za-z-]\<close>.\<close>

definition isIdentChar :: "char \<Rightarrow> bool" where
  "isIdentChar c =
    (CHR ''A'' \<le> c \<and> c \<le> CHR ''Z'' \<or> CHR ''a'' \<le> c \<and> c \<le> CHR ''z'' \<or>
     CHR ''0'' \<le> c \<and> c \<le> CHR ''9'' \<or> c = CHR ''-'')"

text \<open>\<open>isBadNum\<close>: all digits, more than one of them, and a leading zero.\<close>

definition isBadNum :: "string \<Rightarrow> bool" where
  "isBadNum v = (list_all isDigit v \<and> 1 < length v \<and> hd v = CHR ''0'')"

text \<open>\<open>isNum\<close>: all digits (true of the empty string, as in the package).\<close>

definition isNum :: "string \<Rightarrow> bool" where
  "isNum v = list_all isDigit v"

text \<open>
  \<open>parseInt\<close>: the first byte must be a digit; \<open>i\<close> runs from 1 over the digits that
  follow; a leading zero is accepted only when it is the whole number. The result is
  \<open>(v[:i], v[i:])\<close>, or \<open>None\<close> where the package returns \<open>ok = false\<close>.
\<close>

definition parseInt :: "string \<Rightarrow> (string \<times> string) option" where
  "parseInt v =
    (if v = [] then None
     else if hd v < CHR ''0'' \<or> CHR ''9'' < hd v then None
     else let i = 1 + length (takeWhile isDigit (tl v))
          in if hd v = CHR ''0'' \<and> i \<noteq> 1 then None
             else Some (take i v, drop i v))"

text \<open>
  The loop of \<open>parsePrerelease\<close> over \<open>v[1:]\<close>. The second argument is the identifier
  read so far, \<open>v[start:i]\<close> (empty exactly when \<open>start == i\<close>); the result is the number
  of bytes the loop consumes, or \<open>None\<close> where the package returns \<open>ok = false\<close>.
\<close>

fun prereleaseLoop :: "string \<Rightarrow> string \<Rightarrow> nat option" where
  "prereleaseLoop [] cur = (if cur = [] \<or> isBadNum cur then None else Some 0)"
| "prereleaseLoop (c # cs) cur =
    (if c = CHR ''+'' then (if cur = [] \<or> isBadNum cur then None else Some 0)
     else if \<not> isIdentChar c \<and> c \<noteq> CHR ''.'' then None
     else if c = CHR ''.'' then
       (if cur = [] \<or> isBadNum cur then None else map_option Suc (prereleaseLoop cs []))
     else map_option Suc (prereleaseLoop cs (cur @ [c])))"

definition parsePrerelease :: "string \<Rightarrow> (string \<times> string) option" where
  "parsePrerelease v =
    (if v = [] \<or> hd v \<noteq> CHR ''-'' then None
     else case prereleaseLoop (tl v) [] of
            None \<Rightarrow> None
          | Some k \<Rightarrow> Some (take (1 + k) v, drop (1 + k) v))"

text \<open>
  The loop of \<open>parseBuild\<close> over \<open>v[1:]\<close>; the flag says whether the identifier read so
  far is empty (\<open>start == i\<close>). The loop runs to the end of the string.
\<close>

fun buildLoop :: "string \<Rightarrow> bool \<Rightarrow> bool" where
  "buildLoop [] emp = (\<not> emp)"
| "buildLoop (c # cs) emp =
    (if \<not> isIdentChar c \<and> c \<noteq> CHR ''.'' then False
     else if c = CHR ''.'' then (if emp then False else buildLoop cs True)
     else buildLoop cs False)"

definition parseBuild :: "string \<Rightarrow> (string \<times> string) option" where
  "parseBuild v =
    (if v = [] \<or> hd v \<noteq> CHR ''+'' then None
     else if buildLoop (tl v) True then Some (v, []) else None)"

text \<open>\<open>parse\<close>, with \<open>None\<close> for \<open>ok = false\<close>. The steps are those of the package:
  the \<open>v\<close> prefix, the major number, then optionally \<open>.minor\<close>, \<open>.patch\<close>, a prerelease
  and a build tag, and nothing after them.\<close>

definition parse_tail :: "parsed \<Rightarrow> string \<Rightarrow> parsed option" where
  "parse_tail p v =
    (case (if v \<noteq> [] \<and> hd v = CHR ''-'' then
             (case parsePrerelease v of
                None \<Rightarrow> None
              | Some (t, rest) \<Rightarrow> Some (p\<lparr>prerelease := t\<rparr>, rest))
           else Some (p, v)) of
       None \<Rightarrow> None
     | Some (p1, v1) \<Rightarrow>
        (case (if v1 \<noteq> [] \<and> hd v1 = CHR ''+'' then
                 (case parseBuild v1 of
                    None \<Rightarrow> None
                  | Some (t, rest) \<Rightarrow> Some (p1\<lparr>build := t\<rparr>, rest))
               else Some (p1, v1)) of
           None \<Rightarrow> None
         | Some (p2, v2) \<Rightarrow> if v2 \<noteq> [] then None else Some p2))"

definition parse :: "string \<Rightarrow> parsed option" where
  "parse v =
    (if v = [] \<or> hd v \<noteq> CHR ''v'' then None
     else case parseInt (tl v) of
       None \<Rightarrow> None
     | Some (ma, v1) \<Rightarrow>
        if v1 = [] then
          Some \<lparr>major = ma, minor = ''0'', patch = ''0'', prerelease = [], build = []\<rparr>
        else if hd v1 \<noteq> CHR ''.'' then None
        else case parseInt (tl v1) of
          None \<Rightarrow> None
        | Some (mi, v2) \<Rightarrow>
           if v2 = [] then
             Some \<lparr>major = ma, minor = mi, patch = ''0'', prerelease = [], build = []\<rparr>
           else if hd v2 \<noteq> CHR ''.'' then None
           else case parseInt (tl v2) of
             None \<Rightarrow> None
           | Some (pa, v3) \<Rightarrow>
              parse_tail \<lparr>major = ma, minor = mi, patch = pa, prerelease = [], build = []\<rparr> v3)"

definition IsValid :: "string \<Rightarrow> bool" where
  "IsValid v = (parse v \<noteq> None)"

text \<open>\<open>MajorMinor\<close>: the empty string for an invalid version; otherwise the prefix
  \<open>v[:j]\<close> when the string spells out its minor number, and \<open>v[:i] + "." + minor\<close>
  when it does not (as for \<open>v2\<close>).\<close>

definition MajorMinor :: "string \<Rightarrow> string" where
  "MajorMinor v =
    (case parse v of
       None \<Rightarrow> []
     | Some pv \<Rightarrow>
        let i = 1 + length (major pv); j = i + 1 + length (minor pv)
        in if j \<le> length v \<and> v ! i = CHR ''.'' \<and> take (j - (i + 1)) (drop (i + 1) v) = minor pv
           then take j v
           else take i v @ ''.'' @ minor pv)"

text \<open>\<open>compareInt\<close>: the numbers have no leading zeros, so the longer one is greater.\<close>

definition compareInt :: "string \<Rightarrow> string \<Rightarrow> int" where
  "compareInt x y =
    (if x = y then 0
     else if length x < length y then - 1
     else if length x > length y then 1
     else if x < y then - 1 else 1)"

text \<open>\<open>nextIdent\<close>: split at the first dot.\<close>

definition nextIdent :: "string \<Rightarrow> string \<times> string" where
  "nextIdent x = (takeWhile (\<lambda>c. c \<noteq> CHR ''.'') x, dropWhile (\<lambda>c. c \<noteq> CHR ''.'') x)"

text \<open>The comparison of two differing identifiers inside the loop of
  \<open>comparePrerelease\<close>: numeric identifiers are below the others, numeric ones compare
  by length and then bytewise, the others bytewise.\<close>

definition compareIdent :: "string \<Rightarrow> string \<Rightarrow> int" where
  "compareIdent dx dy =
    (let ix = isNum dx; iy = isNum dy
     in if ix \<noteq> iy then (if ix then - 1 else 1)
        else if ix \<and> length dx < length dy then - 1
        else if ix \<and> length dx > length dy then 1
        else if dx < dy then - 1 else 1)"

function comparePrereleaseLoop :: "string \<Rightarrow> string \<Rightarrow> int" where
  "comparePrereleaseLoop x y =
    (if x \<noteq> [] \<and> y \<noteq> [] then
       (let dx = fst (nextIdent (tl x)); x' = snd (nextIdent (tl x));
            dy = fst (nextIdent (tl y)); y' = snd (nextIdent (tl y))
        in if dx \<noteq> dy then compareIdent dx dy else comparePrereleaseLoop x' y')
     else if x = [] then - 1 else 1)"
  by pat_completeness auto
termination
proof (relation "measure (\<lambda>(x, y). length x)")
  show "wf (measure (\<lambda>(x, y). length x))"
    by simp
next
  fix x y :: string and dx x' dy y'
  assume "x \<noteq> [] \<and> y \<noteq> []" and "x' = snd (nextIdent (tl x))"
  then have "x \<noteq> []" and x': "x' = dropWhile (\<lambda>c. c \<noteq> CHR ''.'') (tl x)"
    by (simp_all add: nextIdent_def)
  have "length x' \<le> length (tl x)"
    unfolding x' by (rule length_dropWhile_le)
  moreover have "length (tl x) < length x"
    using \<open>x \<noteq> []\<close> by simp
  ultimately show "((x', y'), (x, y)) \<in> measure (\<lambda>(x, y). length x)"
    by simp
qed

declare comparePrereleaseLoop.simps [simp del]

definition comparePrerelease :: "string \<Rightarrow> string \<Rightarrow> int" where
  "comparePrerelease x y =
    (if x = y then 0
     else if x = [] then 1
     else if y = [] then - 1
     else comparePrereleaseLoop x y)"

definition Compare :: "string \<Rightarrow> string \<Rightarrow> int" where
  "Compare v w =
    (case (parse v, parse w) of
       (None, None) \<Rightarrow> 0
     | (None, Some pw) \<Rightarrow> - 1
     | (Some pv, None) \<Rightarrow> 1
     | (Some pv, Some pw) \<Rightarrow>
        if compareInt (major pv) (major pw) \<noteq> 0 then compareInt (major pv) (major pw)
        else if compareInt (minor pv) (minor pw) \<noteq> 0 then compareInt (minor pv) (minor pw)
        else if compareInt (patch pv) (patch pw) \<noteq> 0 then compareInt (patch pv) (patch pw)
        else comparePrerelease (prerelease pv) (prerelease pw))"

section \<open>Releases, slices and sorting (pkg/packages/release.go)\<close>

text \<open>\<open>time.Time\<close> is an instant; \<open>t.After(u)\<close> is the strict order of instants. An
  instant is modelled by its position on the time line, an integer.\<close>

record Release =
  Org :: string
  Repo :: string
  TagName :: string
  Created :: int
  Assets :: "Asset list"

text \<open>\<open>func (r Release) Less(b Release) bool\<close>.\<close>

definition Release_Less :: "Release \<Rightarrow> Release \<Rightarrow> bool" where
  "Release_Less r b = (Compare (TagName r) (TagName b) > 0)"

text \<open>
  \<open>sort.Sort\<close> sorts through \<open>Len\<close>, \<open>Less\<close> and \<open>Swap\<close>; the standard library
  promises the result to be ordered by \<open>Less\<close> and does not promise stability. The model
  is the library's \<open>insertionSort\<close>: each element in turn is swapped with its left
  neighbour for as long as it is \<open>Less\<close> than that neighbour. \<open>bubble\<close> takes the
  elements to the left of the moving one nearest first. This sort is stable, the
  library's is not: on seven or more elements, and under a \<open>Less\<close> that is not a
  strict order, the library may leave elements that compare equal in another order. The
  general theorems about releases use of the sorted sequence only that it is a
  permutation of the input ordered by \<open>Less\<close>, never the order in which it leaves
  releases of equal version; the concrete runs have no two releases of equal version.
\<close>

fun bubble :: "('a \<Rightarrow> 'a \<Rightarrow> bool) \<Rightarrow> 'a \<Rightarrow> 'a list \<Rightarrow> 'a list" where
  "bubble lt x [] = [x]"
| "bubble lt x (y # left) = (if lt x y then y # bubble lt x left else x # y # left)"

definition sort_Sort :: "('a \<Rightarrow> 'a \<Rightarrow> bool) \<Rightarrow> 'a list \<Rightarrow> 'a list" where
  "sort_Sort lt xs = rev (foldl (\<lambda>left x. bubble lt x left) [] xs)"

text \<open>
  Slices of releases share their backing arrays, and \<open>sort.Sort\<close> swaps elements in
  place. The heap is the list of the backing arrays, addressed by position; a slice
  header names an array, an offset and a length. The nil slice has length 0.
\<close>

type_synonym heap = "Release list list"

record slice =
  base :: nat
  off :: nat
  len :: nat

definition nil_slice :: slice where
  "nil_slice = \<lparr>base = 0, off = 0, len = 0\<rparr>"

definition slice_read :: "heap \<Rightarrow> slice \<Rightarrow> Release list" where
  "slice_read h s = (if len s = 0 then [] else take (len s) (drop (off s) (h ! base s)))"

definition wf_slice :: "heap \<Rightarrow> slice \<Rightarrow> bool" where
  "wf_slice h s =
    (len s = 0 \<or> (base s < length h \<and> off s + len s \<le> length (h ! base s)))"

text \<open>\<open>sort.Sort(releaseList(s))\<close>: the elements of the slice are reordered inside
  their backing array; the rest of the array and the other arrays stay.\<close>

definition sort_in_place :: "slice \<Rightarrow> heap \<Rightarrow> heap" where
  "sort_in_place s h =
    (if len s = 0 then h
     else h[base s := take (off s) (h ! base s)
                      @ sort_Sort Release_Less (slice_read h s)
                      @ drop (off s + len s) (h ! base s)])"

datatype error =
    MkdirAllError
  | UnableToOpen nat
  | UnableToFetch nat
  | UnableToWrite nat
  | PanicIndexOutOfRange
  | PanicSliceBounds

text \<open>The two run-time panics a slice expression or an index expression raises; the
  other errors are values that \<open>HandleRelease\<close> returns.\<close>

fun is_panic :: "error \<Rightarrow> bool" where
  "is_panic PanicIndexOutOfRange = True"
| "is_panic PanicSliceBounds = True"
| "is_panic _ = False"

section \<open>LastN\<close>

text \<open>
  The loop of \<open>LastN\<close> over the sorted copy. \<open>minors\<close> is a Go \<open>int\<close> (64 bits, the
  decrement wraps). The result is the index \<open>i\<close> at which the loop truncates
  \<open>retval = retval[:i]\<close> and breaks, or \<open>None\<close> when it runs to the end.
\<close>

fun LastN_loop :: "string \<Rightarrow> 64 word \<Rightarrow> nat \<Rightarrow> Release list \<Rightarrow> nat option" where
  "LastN_loop previous minors i [] = None"
| "LastN_loop previous minors i (r # rs) =
    (if MajorMinor (TagName r) = previous then LastN_loop previous minors (i + 1) rs
     else let previous' = MajorMinor (TagName r); minors' = minors - 1
          in if minors' = 0 then Some i
             else LastN_loop previous' minors' (i + 1) rs)"

text \<open>
  \<open>LastN(minors, allReleases)\<close>: \<open>make\<close> allocates a new backing array, \<open>copy\<close> fills
  it from the argument, \<open>sort.Sort\<close> sorts the new array in place, \<open>retval[0]\<close> panics
  on an empty slice, and the result is a slice of the new array.
\<close>

definition LastN :: "64 word \<Rightarrow> slice \<Rightarrow> heap \<Rightarrow> (error + slice) \<times> heap" where
  "LastN minors allReleases h =
    (let a = length h;
         h1 = h @ [slice_read h allReleases];
         retval = \<lparr>base = a, off = 0, len = len allReleases\<rparr>;
         h2 = sort_in_place retval h1
     in if len retval = 0 then (Inl PanicIndexOutOfRange, h2)
        else let previous = MajorMinor (TagName (slice_read h2 retval ! 0))
             in case LastN_loop previous minors 0 (slice_read h2 retval) of
                  None \<Rightarrow> (Inr retval, h2)
                | Some i \<Rightarrow> (Inr (retval\<lparr>len := i\<rparr>), h2))"

section \<open>HandleRelease\<close>

text \<open>\<open>FilterAssets\<close> appends a renamed copy of every accepted asset to a new slice.\<close>

fun FilterAssets :: "Asset list \<Rightarrow> (string \<Rightarrow> string) \<Rightarrow> Asset list" where
  "FilterAssets [] accept = []"
| "FilterAssets (asset # al) accept =
    (let name = accept (Name asset)
     in if name \<noteq> [] then asset\<lparr>Name := name\<rparr> # FilterAssets al accept
        else FilterAssets al accept)"

text \<open>
  Modelled from the spec: the types \<open>Package\<close> and \<open>Source\<close>, which \<open>release.go\<close>
  uses and another file of the package declares. The spec gives a package a name, a
  primary source and an ordered sequence of additional sources, and gives each source an
  identifier (\<open>src.String()\<close>) and an accept rule, a pure function of the source's tag
  and the asset name that returns the output name, or the empty string to exclude the
  asset (\<open>src.Accept(tag)\<close> is the function of the name).
\<close>

record Source =
  SourceString :: string
  Accept :: "string \<Rightarrow> string \<Rightarrow> string"

record Package =
  PackageName :: string
  Primary :: Source
  Additional :: "Source list"

text \<open>The first loop over the sorted candidates: \<open>start\<close> is the index of the first
  release whose series equals the target's, \<open>end\<close> the index of the first release of an
  older series, where the loop breaks.\<close>

fun series_loop :: "string \<Rightarrow> int \<Rightarrow> int \<Rightarrow> int \<Rightarrow> Release list \<Rightarrow> int \<times> int" where
  "series_loop majorMinor start end i [] = (start, end)"
| "series_loop majorMinor start end i (srcRelease # rest) =
    (let comp = Compare majorMinor (MajorMinor (TagName srcRelease));
         start' = (if start = - 1 \<and> comp = 0 then i else start)
     in if comp > 0 then (start', i)
        else series_loop majorMinor start' end (i + 1) rest)"

text \<open>The second loop: the index of the first candidate created strictly before the
  target (\<open>r.Created.After(srcRelease.Created)\<close>), or the initial \<open>timeMatch\<close>.\<close>

fun time_loop :: "int \<Rightarrow> int \<Rightarrow> int \<Rightarrow> Release list \<Rightarrow> int" where
  "time_loop created timeMatch i [] = timeMatch"
| "time_loop created timeMatch i (srcRelease # rest) =
    (if created > Created srcRelease then i
     else time_loop created timeMatch (i + 1) rest)"

text \<open>
  The body of the loop over \<open>p.Additional\<close> up to the choice of \<open>candidate\<close>: the
  candidates of the source are sorted in place, cut to \<open>candidates[start:end]\<close> (a
  slice expression with a negative bound panics) and indexed at \<open>timeMatch\<close>.
\<close>

definition align :: "Release \<Rightarrow> slice \<Rightarrow> heap \<Rightarrow> (error + Release) \<times> heap" where
  "align r candidates h =
    (let majorMinor = MajorMinor (TagName r);
         h1 = sort_in_place candidates h;
         cs = slice_read h1 candidates;
         (start, end) = series_loop majorMinor (- 1) (int (len candidates)) 0 cs
     in if start < 0 \<or> end < start \<or> int (len candidates) < end
        then (Inl PanicSliceBounds, h1)
        else let block = take (nat (end - start)) (drop (nat start) cs);
                 timeMatch = time_loop (Created r) (int (length block) - 1) 0 block
             in if timeMatch < 0 \<or> int (length block) \<le> timeMatch
                then (Inl PanicIndexOutOfRange, h1)
                else (Inr (block ! nat timeMatch), h1))"

text \<open>The loop over \<open>p.Additional\<close>: the assets of each chosen release are filtered,
  marked secondary and appended.\<close>

fun additional_loop ::
  "Release \<Rightarrow> (string \<Rightarrow> slice option) \<Rightarrow> Source list \<Rightarrow> Asset list \<Rightarrow> heap
    \<Rightarrow> (error + Asset list) \<times> heap" where
  "additional_loop r allReleases [] assets h = (Inr assets, h)"
| "additional_loop r allReleases (src # srcs) assets h =
    (let candidates = (case allReleases (SourceString src) of
                         None \<Rightarrow> nil_slice | Some s \<Rightarrow> s)
     in case align r candidates h of
          (Inl e, h1) \<Rightarrow> (Inl e, h1)
        | (Inr candidate, h1) \<Rightarrow>
            let newAssets = map (\<lambda>a. a\<lparr>secondary := True\<rparr>)
                              (FilterAssets (Assets candidate) (Accept src (TagName candidate)))
            in additional_loop r allReleases srcs (assets @ newAssets) h1)"

text \<open>The download loop: the outcome of opening, fetching and writing the \<open>i\<close>-th file
  belongs to the file system and the network, and is a parameter.\<close>

fun download_loop :: "(nat \<Rightarrow> Asset \<Rightarrow> error option) \<Rightarrow> nat \<Rightarrow> Asset list \<Rightarrow> error option" where
  "download_loop io i [] = None"
| "download_loop io i (asset # rest) =
    (case io i asset of Some e \<Rightarrow> Some e | None \<Rightarrow> download_loop io (i + 1) rest)"

text \<open>
  \<open>HandleRelease\<close>. \<open>mkdir\<close> is the result of \<open>os.MkdirAll\<close> and \<open>io\<close> that of the
  downloads. On success the result is the sorted list of the assets written, in the
  order of their numeric file-name prefixes.
\<close>

definition HandleRelease ::
  "error option \<Rightarrow> (nat \<Rightarrow> Asset \<Rightarrow> error option) \<Rightarrow> Package \<Rightarrow> Release
    \<Rightarrow> (string \<Rightarrow> slice option) \<Rightarrow> heap \<Rightarrow> (error + Asset list) \<times> heap" where
  "HandleRelease mkdir io p r allReleases h =
    (case mkdir of
       Some err \<Rightarrow> (Inl err, h)
     | None \<Rightarrow>
        let assets = FilterAssets (Assets r) (Accept (Primary p) (TagName r))
        in case additional_loop r allReleases (Additional p) assets h of
             (Inl e, h1) \<Rightarrow> (Inl e, h1)
           | (Inr assets1, h1) \<Rightarrow>
               let sorted = sort_Sort Asset_Less assets1
               in case download_loop io 0 sorted of
                    Some e \<Rightarrow> (Inl e, h1)
                  | None \<Rightarrow> (Inr sorted, h1))"

section \<open>Series\<close>

text \<open>
  The series of a release is the \<open>MajorMinor\<close> of its tag. \<open>newer_series rs r\<close> lists,
  without repetition, the series present in \<open>rs\<close> that \<open>semver.Compare\<close> puts above
  the series of \<open>r\<close>: \<open>r\<close> belongs to the \<open>n\<close> most recent series of \<open>rs\<close> when
  fewer than \<open>n\<close> series are newer than its own.
\<close>

definition series_of :: "Release \<Rightarrow> string" where
  "series_of r = MajorMinor (TagName r)"

definition newer_series :: "Release list \<Rightarrow> Release \<Rightarrow> string list" where
  "newer_series rs r =
    remdups (filter (\<lambda>m. Compare m (series_of r) > 0) (map series_of rs))"

section \<open>Example data\<close>

definition rel :: "string \<Rightarrow> int \<Rightarrow> Release" where
  "rel t c = \<lparr>Org = ''knative'', Repo = ''eventing'', TagName = t, Created = c, Assets = []\<rparr>"

text \<open>Three series with two patch releases each, unsorted, in one backing array.\<close>

definition h_three :: heap where
  "h_three = [[rel ''v1.0.0'' 0, rel ''v1.2.1'' 50, rel ''v1.1.0'' 20,
               rel ''v1.0.1'' 10, rel ''v1.2.0'' 40, rel ''v1.1.1'' 30]]"

definition s_three :: slice where
  "s_three = \<lparr>base = 0, off = 0, len = 6\<rparr>"

text \<open>A target release \<open>v1.2.3\<close> created at the instant 10, with two assets, and the
  releases of one dependency: the example of the spec (\<open>h_spec\<close>), the same with
  \<open>v1.2.5\<close> created at the very instant of the target (\<open>h_tie\<close>), releases of other
  series only (\<open>h_other\<close>), and releases with a malformed tag (\<open>h_bad\<close>).\<close>

definition target :: Release where
  "target = \<lparr>Org = ''knative'', Repo = ''eventing'', TagName = ''v1.2.3'', Created = 10,
     Assets = [\<lparr>Name = ''eventing-core.yaml'', URL = ''https://example/core'', secondary = False\<rparr>,
               \<lparr>Name = ''eventing-crds.yaml'', URL = ''https://example/crds'', secondary = False\<rparr>]\<rparr>"

definition h_spec :: heap where
  "h_spec = [[rel ''v1.2.0'' 0, rel ''v1.2.5'' 5, rel ''v1.2.9'' 15]]"

definition h_tie :: heap where
  "h_tie = [[rel ''v1.2.0'' 0, rel ''v1.2.5'' 10, rel ''v1.2.9'' 15]]"

definition h_other :: heap where
  "h_other = [[rel ''v1.3.0'' 0, rel ''v1.1.5'' 5]]"

definition h_bad :: heap where
  "h_bad = [[rel ''v1.3.0'' 0, rel ''also-bad'' 5, rel ''v1.4.9'' 15]]"

definition whole :: "nat \<Rightarrow> slice" where
  "whole n = \<lparr>base = 0, off = 0, len = n\<rparr>"

definition accept_all :: "string \<Rightarrow> string \<Rightarrow> string" where
  "accept_all tag name = name"

definition package :: Package where
  "package = \<lparr>PackageName = ''eventing'',
     Primary = \<lparr>SourceString = ''knative/eventing'', Accept = accept_all\<rparr>,
     Additional = [\<lparr>SourceString = ''knative/eventing-contrib'', Accept = accept_all\<rparr>]\<rparr>"

definition releases_of :: "slice \<Rightarrow> string \<Rightarrow> slice option" where
  "releases_of s k = (if k = ''knative/eventing-contrib'' then Some s else None)"

definition no_failure :: "nat \<Rightarrow> Asset \<Rightarrow> error option" where
  "no_failure i a = None"

section \<open>Abstractions used in the proofs\<close>

text \<open>
  A version is mapped to a key in a linear order: the lengths and digits of its three
  numbers, and the identifiers of its prerelease (none is the greatest, numeric
  identifiers are below the others). An invalid version has the least key.
\<close>

type_synonym numkey = "nat \<times> string"
type_synonym prekey = "nat \<times> (nat \<times> nat \<times> string) list"
type_synonym vkey = "(numkey \<times> numkey \<times> numkey \<times> prekey) option"

definition numkey :: "string \<Rightarrow> numkey" where
  "numkey x = (length x, x)"

definition identkey :: "string \<Rightarrow> nat \<times> nat \<times> string" where
  "identkey d = (if isNum d then (0, length d, d) else (1, 0, d))"

function idents :: "string \<Rightarrow> string list" where
  "idents x = (if x = [] then [] else fst (nextIdent (tl x)) # idents (snd (nextIdent (tl x))))"
  by pat_completeness auto
termination
proof (relation "measure length")
  show "wf (measure length)"
    by simp
next
  fix x :: string
  assume "x \<noteq> []"
  have "length (dropWhile (\<lambda>c. c \<noteq> CHR ''.'') (tl x)) \<le> length (tl x)"
    by (rule length_dropWhile_le)
  moreover have "length (tl x) < length x"
    using \<open>x \<noteq> []\<close> by simp
  ultimately show "(snd (nextIdent (tl x)), x) \<in> measure length"
    by (simp add: nextIdent_def)
qed

declare idents.simps [simp del]

definition prekey :: "string \<Rightarrow> prekey" where
  "prekey x = (if x = [] then (1, []) else (0, map identkey (idents x)))"

definition vkey :: "string \<Rightarrow> vkey" where
  "vkey v = map_option (\<lambda>p. (numkey (major p), numkey (minor p), numkey (patch p),
                               prekey (prerelease p))) (parse v)"

definition wellformed_num :: "string \<Rightarrow> bool" where
  "wellformed_num t = (t \<noteq> [] \<and> list_all isDigit t \<and> (hd t = CHR ''0'' \<longrightarrow> length t = 1))"

definition mmkey :: "string \<Rightarrow> vkey" where
  "mmkey v = vkey (MajorMinor v)"

text \<open>The key of a release is that of its tag; the key of its series is that of the
  \<open>MajorMinor\<close> of its tag.\<close>

definition rkey :: "Release \<Rightarrow> vkey" where
  "rkey r = vkey (TagName r)"

definition skey :: "Release \<Rightarrow> vkey" where
  "skey r = mmkey (TagName r)"

text \<open>
  The loop of \<open>LastN\<close> read as a function on lists: \<open>budget\<close> is the number of
  series changes after which the 64-bit counter reaches zero (a counter that starts at
  zero reaches zero again after \<open>2 ^ 64\<close> decrements), \<open>kept\<close> is the prefix the
  loop keeps with that budget, and \<open>LastN_len\<close> is the length the loop leaves.
\<close>

definition budget :: "64 word \<Rightarrow> nat" where
  "budget n = (if n = 0 then 2 ^ 64 else unat n)"

fun kept :: "string \<Rightarrow> nat \<Rightarrow> Release list \<Rightarrow> Release list" where
  "kept previous c [] = []"
| "kept previous c (r # rs) =
    (if MajorMinor (TagName r) = previous then r # kept previous c rs
     else if c = 1 then []
     else r # kept (MajorMinor (TagName r)) (c - 1) rs)"

definition LastN_len :: "string \<Rightarrow> 64 word \<Rightarrow> nat \<Rightarrow> Release list \<Rightarrow> nat" where
  "LastN_len previous n i xs =
    (case LastN_loop previous n i xs of None \<Rightarrow> length xs | Some j \<Rightarrow> j - i)"

text \<open>The choice of the second loop of the alignment, on the block of the target's
  series: the first release created strictly before the instant \<open>t\<close>, or the last of
  the block when there is none.\<close>

definition pick :: "int \<Rightarrow> Release list \<Rightarrow> Release" where
  "pick t B =
    (if (\<exists>c\<in>set B. Created c < t) then B ! length (takeWhile (\<lambda>c. \<not> Created c < t) B)
     else last B)"

section \<open>Properties of the asset ordering\<close>

lemma HasSuffix_suffix: "HasSuffix s suf \<longleftrightarrow> suffix suf s"
proof
  assume "HasSuffix s suf"
  then have "s = take (length s - length suf) s @ suf"
    by (metis HasSuffix_def append_take_drop_id)
  then show "suffix suf s"
    by (metis suffixI)
next
  assume "suffix suf s"
  then obtain p where "s = p @ suf"
    by (auto simp: suffix_def)
  then show "HasSuffix s suf"
    by (simp add: HasSuffix_def)
qed

lemma marker_clash:
  assumes "HasSuffix n m1" and "HasSuffix n m2"
  shows "prefix (rev m1) (rev m2) \<or> prefix (rev m2) (rev m1)"
  using assms unfolding HasSuffix_suffix suffix_to_prefix
  by (metis prefix_same_cases)

lemma sugar_not_pre:
  "HasSuffix n ''-sugar-controller.yaml'' \<Longrightarrow> \<not> HasSuffix n ''-pre-install-jobs.yaml''"
  by (auto dest: marker_clash)

lemma sugar_not_crds:
  "HasSuffix n ''-sugar-controller.yaml'' \<Longrightarrow> \<not> HasSuffix n ''-crds.yaml''"
  by (auto dest: marker_clash)

lemma sugar_not_post:
  "HasSuffix n ''-sugar-controller.yaml'' \<Longrightarrow> \<not> HasSuffix n ''-post-install-jobs.yaml''"
  by (auto dest: marker_clash)

text \<open>
  Claim C3. Whenever the name of \<open>A\<close> ends in the pre-install-job marker and the name
  of \<open>B\<close> does not, \<open>A.Less(B)\<close> is true and \<open>B.Less(A)\<close> is false, whatever the
  other markers, the origin or the name of \<open>B\<close>. Whenever the name of \<open>S\<close> ends in the
  sugar-controller marker and \<open>N\<close> carries none of the four markers, \<open>S.Less(N)\<close> is
  false and \<open>N.Less(S)\<close> is true, whatever the names and origins are (so also when the
  name of \<open>S\<close> is lexicographically smaller than the name of \<open>N\<close>).
\<close>

theorem Asset_Less_markers:
  assumes "HasSuffix (Name A) ''-pre-install-jobs.yaml''"
    and "\<not> HasSuffix (Name B) ''-pre-install-jobs.yaml''"
    and "HasSuffix (Name S) ''-sugar-controller.yaml''"
    and "no_marker N"
  shows "Asset_Less A B \<and> \<not> Asset_Less B A \<and> \<not> Asset_Less S N \<and> Asset_Less N S"
proof -
  have "Asset_Less A B"
    using assms(1) by (simp add: Asset_Less_def)
  moreover have "\<not> Asset_Less B A"
    using assms(1,2) by (simp add: Asset_Less_def)
  moreover have "\<not> Asset_Less S N"
    using assms(3,4) sugar_not_pre [OF assms(3)] sugar_not_crds [OF assms(3)]
      sugar_not_post [OF assms(3)]
    by (simp add: Asset_Less_def no_marker_def)
  moreover have "Asset_Less N S"
    using assms(3,4) sugar_not_pre [OF assms(3)] sugar_not_crds [OF assms(3)]
      sugar_not_post [OF assms(3)]
    by (simp add: Asset_Less_def no_marker_def)
  ultimately show ?thesis by simp
qed

theorem Asset_Less_markers_witness:
  "HasSuffix ''0-pre-install-jobs.yaml'' ''-pre-install-jobs.yaml'' \<and>
   \<not> HasSuffix ''1-crds.yaml'' ''-pre-install-jobs.yaml'' \<and>
   HasSuffix ''a-sugar-controller.yaml'' ''-sugar-controller.yaml'' \<and>
   no_marker \<lparr>Name = ''z-something.yaml'', URL = ''u'', secondary = True\<rparr> \<and>
   ''a-sugar-controller.yaml'' < ''z-something.yaml'' \<and>
   Asset_Less \<lparr>Name = ''0-pre-install-jobs.yaml'', URL = ''u'', secondary = True\<rparr>
              \<lparr>Name = ''1-crds.yaml'', URL = ''u'', secondary = False\<rparr> \<and>
   \<not> Asset_Less \<lparr>Name = ''1-crds.yaml'', URL = ''u'', secondary = False\<rparr>
                \<lparr>Name = ''0-pre-install-jobs.yaml'', URL = ''u'', secondary = True\<rparr> \<and>
   \<not> Asset_Less \<lparr>Name = ''a-sugar-controller.yaml'', URL = ''u'', secondary = False\<rparr>
                \<lparr>Name = ''z-something.yaml'', URL = ''u'', secondary = True\<rparr> \<and>
   Asset_Less \<lparr>Name = ''z-something.yaml'', URL = ''u'', secondary = True\<rparr>
              \<lparr>Name = ''a-sugar-controller.yaml'', URL = ''u'', secondary = False\<rparr>"
proof -
  have h1: "HasSuffix (Name \<lparr>Name = ''0-pre-install-jobs.yaml'', URL = ''u'', secondary = True\<rparr>)
      ''-pre-install-jobs.yaml''"
    by (simp add: HasSuffix_def)
  have h2: "\<not> HasSuffix (Name \<lparr>Name = ''1-crds.yaml'', URL = ''u'', secondary = False\<rparr>)
      ''-pre-install-jobs.yaml''"
    by (simp add: HasSuffix_def)
  have h3: "HasSuffix (Name \<lparr>Name = ''a-sugar-controller.yaml'', URL = ''u'', secondary = False\<rparr>)
      ''-sugar-controller.yaml''"
    by (simp add: HasSuffix_def)
  have h4: "no_marker \<lparr>Name = ''z-something.yaml'', URL = ''u'', secondary = True\<rparr>"
    by (simp add: no_marker_def HasSuffix_def)
  have h5: "''a-sugar-controller.yaml'' < ''z-something.yaml''"
    by simp
  show ?thesis
    using Asset_Less_markers [OF h1 h2 h3 h4] h1 h2 h3 h4 h5 by simp
qed

text \<open>
  Claim C4. The comparator is asked to be irreflexive and asymmetric. It returns true as
  soon as the receiver's name ends in the pre-install-job marker (or, next, in the CRD
  marker), before it looks at the argument: an asset with that marker is less than
  itself, and two distinct assets with that marker are each less than the other.
\<close>

theorem Asset_Less_same_marker:
  "Asset_Less \<lparr>Name = ''a-pre-install-jobs.yaml'', URL = ''u'', secondary = False\<rparr>
              \<lparr>Name = ''a-pre-install-jobs.yaml'', URL = ''u'', secondary = False\<rparr> \<and>
   Asset_Less \<lparr>Name = ''a-pre-install-jobs.yaml'', URL = ''u'', secondary = False\<rparr>
              \<lparr>Name = ''b-pre-install-jobs.yaml'', URL = ''v'', secondary = False\<rparr> \<and>
   Asset_Less \<lparr>Name = ''b-pre-install-jobs.yaml'', URL = ''v'', secondary = False\<rparr>
              \<lparr>Name = ''a-pre-install-jobs.yaml'', URL = ''u'', secondary = False\<rparr> \<and>
   Asset_Less \<lparr>Name = ''a-crds.yaml'', URL = ''u'', secondary = False\<rparr>
              \<lparr>Name = ''a-crds.yaml'', URL = ''u'', secondary = False\<rparr>"
  by (simp add: Asset_Less_def HasSuffix_def)

section \<open>Properties of the version comparison\<close>

lemma compareInt_le: "compareInt x y \<le> 0 \<longleftrightarrow> numkey x \<le> numkey y"
  by (auto simp: compareInt_def numkey_def)

lemma compareInt_eq: "compareInt x y = 0 \<longleftrightarrow> x = y"
  by (auto simp: compareInt_def)

lemma numkey_inj: "numkey x = numkey y \<longleftrightarrow> x = y"
  by (auto simp: numkey_def)

lemma identkey_inj: "identkey x = identkey y \<longleftrightarrow> x = y"
  by (auto simp: identkey_def split: if_splits)

lemma compareIdent_range: "compareIdent dx dy = - 1 \<or> compareIdent dx dy = 1"
  by (auto simp: compareIdent_def Let_def)

lemma compareIdent_less:
  "dx \<noteq> dy \<Longrightarrow> compareIdent dx dy = - 1 \<longleftrightarrow> identkey dx < identkey dy"
  by (auto simp: compareIdent_def identkey_def Let_def)

lemma loop_range: "comparePrereleaseLoop x y = - 1 \<or> comparePrereleaseLoop x y = 1"
proof (induction x y rule: comparePrereleaseLoop.induct)
  case (1 x y)
  show ?case
    using 1 compareIdent_range
    by (subst (1 2) comparePrereleaseLoop.simps) (auto simp: Let_def)
qed

lemma loop_le:
  "comparePrereleaseLoop x y = - 1 \<longleftrightarrow> map identkey (idents x) \<le> map identkey (idents y)"
proof (induction x y rule: comparePrereleaseLoop.induct)
  case (1 x y)
  show ?case
  proof (cases "x \<noteq> [] \<and> y \<noteq> []")
    case True
    define dx where "dx = fst (nextIdent (tl x))"
    define dy where "dy = fst (nextIdent (tl y))"
    define x' where "x' = snd (nextIdent (tl x))"
    define y' where "y' = snd (nextIdent (tl y))"
    have ix: "idents x = dx # idents x'"
      using True by (subst idents.simps) (simp add: dx_def x'_def)
    have iy: "idents y = dy # idents y'"
      using True by (subst idents.simps) (simp add: dy_def y'_def)
    show ?thesis
    proof (cases "dx = dy")
      case same: True
      have "comparePrereleaseLoop x y = comparePrereleaseLoop x' y'"
        using True same by (subst comparePrereleaseLoop.simps) (simp add: Let_def dx_def dy_def x'_def y'_def)
      moreover have "comparePrereleaseLoop x' y' = - 1
          \<longleftrightarrow> map identkey (idents x') \<le> map identkey (idents y')"
        using "1.IH" [OF True dx_def x'_def dy_def y'_def] same by simp
      ultimately show ?thesis
        unfolding ix iy using same by simp
    next
      case diff: False
      have "comparePrereleaseLoop x y = compareIdent dx dy"
        using True diff by (subst comparePrereleaseLoop.simps) (simp add: Let_def dx_def dy_def x'_def y'_def)
      then show ?thesis
        unfolding ix iy using diff compareIdent_less [OF diff] identkey_inj [of dx dy]
        by auto
    qed
  next
    case False
    then show ?thesis
      by (subst comparePrereleaseLoop.simps, subst idents.simps, subst (2) idents.simps) auto
  qed
qed

lemma comparePrerelease_le: "comparePrerelease x y \<le> 0 \<longleftrightarrow> prekey x \<le> prekey y"
proof -
  have "comparePrereleaseLoop x y \<le> 0 \<longleftrightarrow> comparePrereleaseLoop x y = - 1"
    using loop_range [of x y] by auto
  then show ?thesis
    using loop_le [of x y]
    by (auto simp: comparePrerelease_def prekey_def)
qed

lemma Compare_le: "Compare v w \<le> 0 \<longleftrightarrow> vkey v \<le> vkey w"
proof (cases "parse v")
  case None
  then show ?thesis
    by (cases "parse w") (simp_all add: Compare_def vkey_def)
next
  case (Some pv)
  show ?thesis
  proof (cases "parse w")
    case None
    then show ?thesis
      using Some by (simp add: Compare_def vkey_def)
  next
    case (Some pw)
    have "Compare v w \<le> 0 \<longleftrightarrow>
       (numkey (major pv), numkey (minor pv), numkey (patch pv), prekey (prerelease pv))
       \<le> (numkey (major pw), numkey (minor pw), numkey (patch pw), prekey (prerelease pw))"
      using \<open>parse v = Some pv\<close> Some
        compareInt_le [of "major pv" "major pw"] compareInt_eq [of "major pv" "major pw"]
        compareInt_le [of "minor pv" "minor pw"] compareInt_eq [of "minor pv" "minor pw"]
        compareInt_le [of "patch pv" "patch pw"] compareInt_eq [of "patch pv" "patch pw"]
        comparePrerelease_le [of "prerelease pv" "prerelease pw"]
        numkey_inj [of "major pv" "major pw"] numkey_inj [of "minor pv" "minor pw"]
        numkey_inj [of "patch pv" "patch pw"]
      by (auto simp: Compare_def)
    then show ?thesis
      using \<open>parse v = Some pv\<close> Some by (simp add: vkey_def)
  qed
qed

lemma Compare_pos: "Compare v w > 0 \<longleftrightarrow> vkey w < vkey v"
  using Compare_le [of v w] by auto


lemma parseInt_SomeD:
  assumes "parseInt v = Some (t, rest)"
  shows "v = t @ rest" and "wellformed_num t" and "rest = [] \<or> \<not> isDigit (hd rest)"
proof -
  from assms obtain c cs where v: "v = c # cs"
    by (cases v) (simp_all add: parseInt_def)
  from assms have c: "isDigit c"
    by (auto simp: parseInt_def v isDigit_def not_less split: if_splits)
  have tk: "take (length (takeWhile isDigit cs)) cs = takeWhile isDigit cs"
    by (rule takeWhile_eq_take [symmetric])
  have dr: "drop (length (takeWhile isDigit cs)) cs = dropWhile isDigit cs"
    by (rule dropWhile_eq_drop [symmetric])
  from assms have t: "t = c # takeWhile isDigit cs" and rest: "rest = dropWhile isDigit cs"
    and z: "c = CHR ''0'' \<longrightarrow> takeWhile isDigit cs = []"
    by (auto simp: parseInt_def v Let_def tk dr split: if_splits)
  show "v = t @ rest"
    by (simp add: v t rest)
  show "wellformed_num t"
    using c z by (auto simp: wellformed_num_def t list_all_iff dest: set_takeWhileD)
  show "rest = [] \<or> \<not> isDigit (hd rest)"
    unfolding rest using hd_dropWhile [of isDigit cs] by blast
qed

lemma parseInt_intro:
  assumes "wellformed_num t" and "rest = [] \<or> \<not> isDigit (hd rest)"
  shows "parseInt (t @ rest) = Some (t, rest)"
proof -
  from assms(1) obtain c cs where t: "t = c # cs"
    by (cases t) (simp_all add: wellformed_num_def)
  from assms(1) have c: "isDigit c" and cs: "\<forall>x\<in>set cs. isDigit x"
    and z: "c = CHR ''0'' \<longrightarrow> cs = []"
    by (auto simp: wellformed_num_def t list_all_iff)
  have "takeWhile isDigit rest = []"
    using assms(2) by (cases rest) auto
  then have tw: "takeWhile isDigit (cs @ rest) = cs"
    using cs by (simp add: takeWhile_append2)
  from c have "\<not> (c < CHR ''0'' \<or> CHR ''9'' < c)"
    by (auto simp: isDigit_def)
  then show ?thesis
    using z by (simp add: parseInt_def t tw)
qed

lemma parse_tail_fields:
  "parse_tail q v = Some p \<Longrightarrow> major p = major q \<and> minor p = minor q \<and> patch p = patch q"
  by (auto simp: parse_tail_def split: if_splits option.splits prod.splits)

lemma parse_SomeD:
  assumes "parse v = Some p"
  shows "wellformed_num (major p) \<and> wellformed_num (minor p) \<and>
    (v = CHR ''v'' # major p \<and> minor p = ''0'' \<or>
     (\<exists>v2. v = CHR ''v'' # major p @ CHR ''.'' # minor p @ v2 \<and> (v2 = [] \<or> \<not> isDigit (hd v2))))"
proof -
  from assms obtain cs where v: "v = CHR ''v'' # cs"
    by (cases v) (auto simp: parse_def split: if_splits)
  from assms obtain ma v1 where p1: "parseInt cs = Some (ma, v1)"
    by (auto simp: parse_def v split: option.splits)
  note d1 = parseInt_SomeD [OF p1]
  show ?thesis
  proof (cases "v1 = []")
    case True
    with assms p1 have "p = \<lparr>major = ma, minor = ''0'', patch = ''0'', prerelease = [], build = []\<rparr>"
      by (simp add: parse_def v)
    then show ?thesis
      using d1 True by (simp add: v wellformed_num_def isDigit_def)
  next
    case False
    with assms p1 obtain w1 where v1: "v1 = CHR ''.'' # w1"
      by (cases v1) (auto simp: parse_def v split: if_splits)
    from assms p1 obtain mi v2 where p2: "parseInt w1 = Some (mi, v2)"
      by (auto simp: parse_def v v1 split: option.splits)
    note d2 = parseInt_SomeD [OF p2]
    have "major p = ma \<and> minor p = mi"
    proof (cases "v2 = []")
      case True
      with assms p1 p2 show ?thesis
        by (auto simp: parse_def v v1)
    next
      case False
      with assms p1 p2 show ?thesis
        by (auto simp: parse_def v v1 split: if_splits option.splits dest: parse_tail_fields)
    qed
    then show ?thesis
      using d1 d2 by (auto simp: v v1)
  qed
qed

lemma MajorMinor_invalid: "parse v = None \<Longrightarrow> MajorMinor v = []"
  by (simp add: MajorMinor_def)

lemma MajorMinor_valid:
  assumes "parse v = Some p"
  shows "MajorMinor v = CHR ''v'' # major p @ CHR ''.'' # minor p"
proof -
  from parse_SomeD [OF assms] consider
    "v = CHR ''v'' # major p" "minor p = ''0''"
    | v2 where "v = CHR ''v'' # major p @ CHR ''.'' # minor p @ v2"
    by blast
  then show ?thesis
  proof cases
    case 1
    then show ?thesis
      using assms by (simp add: MajorMinor_def Let_def)
  next
    case 2
    define i where "i = 1 + length (major p)"
    define j where "j = i + 1 + length (minor p)"
    have len: "j \<le> length v"
      by (subst 2) (simp add: i_def j_def)
    have dot: "v ! i = CHR ''.''"
      by (subst 2) (simp add: i_def nth_append)
    have mi: "take (j - (i + 1)) (drop (i + 1) v) = minor p"
      by (subst 2) (simp add: i_def j_def)
    have "MajorMinor v = take j v"
      using assms len dot mi unfolding i_def j_def by (simp add: MajorMinor_def Let_def)
    also have "\<dots> = CHR ''v'' # major p @ CHR ''.'' # minor p"
      by (subst 2) (simp add: i_def j_def)
    finally show ?thesis .
  qed
qed

lemma parse_Nil: "parse [] = None"
  by (simp add: parse_def)

lemma parse_MajorMinor:
  assumes "parse v = Some p"
  shows "parse (MajorMinor v) =
    Some \<lparr>major = major p, minor = minor p, patch = ''0'', prerelease = [], build = []\<rparr>"
proof -
  from parse_SomeD [OF assms] have wf: "wellformed_num (major p)" "wellformed_num (minor p)"
    by simp_all
  have "\<not> isDigit (CHR ''.'')"
    by (simp add: isDigit_def)
  then have 1: "parseInt (major p @ CHR ''.'' # minor p) = Some (major p, CHR ''.'' # minor p)"
    by (intro parseInt_intro wf) simp
  have 2: "parseInt (minor p) = Some (minor p, [])"
    using parseInt_intro [OF wf(2), of "[]"] by simp
  show ?thesis
    unfolding MajorMinor_valid [OF assms] by (simp add: parse_def 1 2)
qed

lemma mmkey_eq:
  "mmkey v = map_option (\<lambda>p. (numkey (major p), numkey (minor p), numkey ''0'', prekey [])) (parse v)"
proof (cases "parse v")
  case None
  then show ?thesis
    by (simp add: mmkey_def vkey_def MajorMinor_invalid parse_Nil)
next
  case (Some p)
  then show ?thesis
    by (simp add: mmkey_def vkey_def parse_MajorMinor)
qed

lemma mmkey_mono: "vkey v \<le> vkey w \<Longrightarrow> mmkey v \<le> mmkey w"
  unfolding mmkey_eq by (cases "parse v"; cases "parse w") (auto simp: vkey_def)

lemma mmkey_inj: "mmkey v = mmkey w \<longleftrightarrow> MajorMinor v = MajorMinor w"
proof
  assume "MajorMinor v = MajorMinor w"
  then show "mmkey v = mmkey w"
    by (simp add: mmkey_def)
next
  assume "mmkey v = mmkey w"
  then show "MajorMinor v = MajorMinor w"
    unfolding mmkey_eq
    by (cases "parse v"; cases "parse w")
       (auto simp: MajorMinor_invalid MajorMinor_valid numkey_def)
qed

lemma Compare_refl: "Compare v v = 0"
  by (cases "parse v") (simp_all add: Compare_def compareInt_def comparePrerelease_def)

lemma parse_MajorMinor_map:
  "parse (MajorMinor v) =
    map_option (\<lambda>p. \<lparr>major = major p, minor = minor p, patch = ''0'', prerelease = [],
                         build = []\<rparr>) (parse v)"
  by (cases "parse v") (simp_all add: MajorMinor_invalid parse_Nil parse_MajorMinor)

lemma Compare_MajorMinor_zero:
  "Compare (MajorMinor v) (MajorMinor w) = 0 \<longleftrightarrow> MajorMinor v = MajorMinor w"
proof
  assume "MajorMinor v = MajorMinor w"
  then show "Compare (MajorMinor v) (MajorMinor w) = 0"
    by (simp add: Compare_refl)
next
  assume "Compare (MajorMinor v) (MajorMinor w) = 0"
  then show "MajorMinor v = MajorMinor w"
    unfolding Compare_def parse_MajorMinor_map
    by (cases "parse v"; cases "parse w")
       (auto simp: MajorMinor_invalid MajorMinor_valid compareInt_eq split: if_splits)
qed

section \<open>Properties of sorting and of slices\<close>

lemma mset_bubble: "mset (bubble lt x left) = add_mset x (mset left)"
  by (induction left) simp_all

lemma set_bubble: "set (bubble lt x left) = insert x (set left)"
  by (induction left) auto

lemma mset_foldl_bubble:
  "mset (foldl (\<lambda>left x. bubble lt x left) acc xs) = mset acc + mset xs"
  by (induction xs arbitrary: acc) (simp_all add: mset_bubble)

lemma mset_sort_Sort: "mset (sort_Sort lt xs) = mset xs"
  by (simp add: sort_Sort_def mset_foldl_bubble)

lemma set_sort_Sort: "set (sort_Sort lt xs) = set xs"
  using mset_sort_Sort [of lt xs] by (metis set_mset_mset)

lemma length_sort_Sort: "length (sort_Sort lt xs) = length xs"
  using mset_sort_Sort [of lt xs] by (metis size_mset)

lemma sorted_bubble:
  fixes k :: "'a \<Rightarrow> 'k::linorder"
  assumes lt: "\<And>a b. lt a b \<longleftrightarrow> k b < k a"
  shows "sorted (map k left) \<Longrightarrow> sorted (map k (bubble lt x left))"
proof (induction left)
  case Nil
  then show ?case by simp
next
  case (Cons y left)
  show ?case
  proof (cases "lt x y")
    case True
    then have "k y \<le> k x"
      using lt by simp
    then show ?thesis
      using Cons True by (auto simp: set_bubble)
  next
    case False
    then have "k x \<le> k y"
      using lt by (simp add: not_less)
    then show ?thesis
      using Cons.prems False by auto
  qed
qed

lemma sorted_foldl_bubble:
  fixes k :: "'a \<Rightarrow> 'k::linorder"
  assumes lt: "\<And>a b. lt a b \<longleftrightarrow> k b < k a"
  shows "sorted (map k acc) \<Longrightarrow> sorted (map k (foldl (\<lambda>left x. bubble lt x left) acc xs))"
  by (induction xs arbitrary: acc) (simp_all add: sorted_bubble [of lt k, OF lt])

lemma sorted_sort_Sort:
  fixes k :: "'a \<Rightarrow> 'k::linorder"
  assumes lt: "\<And>a b. lt a b \<longleftrightarrow> k b < k a"
  shows "sorted_wrt (\<lambda>a b. k b \<le> k a) (sort_Sort lt xs)"
proof -
  have "sorted (map k (foldl (\<lambda>left x. bubble lt x left) [] xs))"
    by (rule sorted_foldl_bubble [of lt k, OF lt]) simp
  then show ?thesis
    by (simp add: sort_Sort_def sorted_wrt_rev sorted_map)
qed

lemma Release_Less_rkey: "Release_Less a b \<longleftrightarrow> rkey b < rkey a"
  by (simp add: Release_Less_def rkey_def Compare_pos)

lemma sorted_releases: "sorted_wrt (\<lambda>a b. rkey b \<le> rkey a) (sort_Sort Release_Less xs)"
  by (rule sorted_sort_Sort) (rule Release_Less_rkey)

lemma skey_mono: "rkey a \<le> rkey b \<Longrightarrow> skey a \<le> skey b"
  by (simp add: rkey_def skey_def mmkey_mono)

lemma sorted_series: "sorted_wrt (\<lambda>a b. skey b \<le> skey a) (sort_Sort Release_Less xs)"
  by (rule sorted_wrt_mono_rel [OF _ sorted_releases]) (rule skey_mono)

lemma length_slice_read: "wf_slice h s \<Longrightarrow> length (slice_read h s) = len s"
  by (auto simp: wf_slice_def slice_read_def)

lemma slice_read_sort_in_place:
  assumes "wf_slice h s"
  shows "slice_read (sort_in_place s h) s = sort_Sort Release_Less (slice_read h s)"
proof (cases "len s = 0")
  case True
  then show ?thesis
    by (simp add: sort_in_place_def slice_read_def sort_Sort_def)
next
  case False
  with assms have b: "base s < length h" and l: "off s + len s \<le> length (h ! base s)"
    by (simp_all add: wf_slice_def)
  have "length (sort_Sort Release_Less (slice_read h s)) = len s"
    by (simp add: length_sort_Sort length_slice_read [OF assms])
  then show ?thesis
    using False b l by (simp add: sort_in_place_def slice_read_def [of "_[_ := _]"])
qed

section \<open>Properties of LastN\<close>

lemma unat_eq_1_iff: "unat (n :: 64 word) = 1 \<longleftrightarrow> n = 1"
  by (metis unat_1 word_eq_iff_unsigned)

lemma unat_minus_1_64: "unat (- 1 :: 64 word) = 2 ^ 64 - 1"
  by (simp add: unsigned_minus_1_eq_mask mask_eq_exp_minus_1)

lemma unat_negative:
  fixes n :: "64 word"
  assumes "sint n < 0"
  shows "2 ^ 63 \<le> unat n"
proof -
  have lo: "- (2 ^ 63) \<le> sint n"
    using sint_ge [of n] by simp
  have "(sint n + 2 ^ 64) mod 2 ^ 64 = sint n + 2 ^ 64"
    using lo assms by (intro mod_pos_pos_trivial) simp_all
  then have "sint n mod 2 ^ 64 = sint n + 2 ^ 64"
    by simp
  then have "uint n = sint n + 2 ^ 64"
    using uint_sint [of n] by (simp add: take_bit_eq_mod)
  then have "2 ^ 63 \<le> uint n"
    using lo by simp
  then have "(2 :: int) ^ 63 \<le> int (unat n)"
    by (simp only: uint_nat)
  then have "int (2 ^ 63) \<le> int (unat n)"
    by simp
  then show ?thesis
    by (simp only: of_nat_le_iff)
qed

lemma unat_positive:
  fixes n :: "64 word"
  assumes "0 < sint n"
  shows "unat n = nat (sint n)"
proof -
  have "sint n < 2 ^ 64"
    using sint_lt [of n] by simp
  then have "take_bit 64 (sint n) = sint n"
    using assms by (intro take_bit_int_eq_self) simp_all
  then have "uint n = sint n"
    using uint_sint [of n] by simp
  then have "nat (uint n) = nat (sint n)"
    by (simp only:)
  then show ?thesis
    by (simp only: nat_uint_eq)
qed

lemma sint_nonpositive:
  fixes n :: "64 word"
  shows "sint n \<le> 0 \<Longrightarrow> n \<noteq> 0 \<Longrightarrow> sint n < 0"
proof -
  assume "sint n \<le> 0" and "n \<noteq> 0"
  have "sint n \<noteq> 0"
  proof
    assume "sint n = 0"
    then have "uint n = 0"
      using uint_sint [of n] by simp
    then show False
      using \<open>n \<noteq> 0\<close> by (simp only: uint_0_iff)
  qed
  with \<open>sint n \<le> 0\<close> show ?thesis
    by simp
qed

lemma budget_pos: "0 < budget n"
  by (simp add: budget_def unat_gt_0)

lemma budget_one: "budget n = 1 \<longleftrightarrow> n - 1 = 0"
  using unat_eq_1_iff [of n] by (auto simp: budget_def)

lemma budget_dec: "n - 1 \<noteq> 0 \<Longrightarrow> budget (n - 1) = budget n - 1"
proof (cases "n = 0")
  case True
  then show ?thesis
    by (simp add: budget_def unat_minus_1_64)
next
  case False
  assume "n - 1 \<noteq> 0"
  have "unat (n - 1) = unat n - 1"
    using False by (simp add: unat_minus_one)
  then show ?thesis
    using False \<open>n - 1 \<noteq> 0\<close> by (simp add: budget_def)
qed

lemma LastN_loop_bounds:
  "LastN_loop previous n i xs = Some j \<Longrightarrow> i \<le> j \<and> j < i + length xs"
proof (induction xs arbitrary: previous n i)
  case Nil
  then show ?case by simp
next
  case (Cons r rs)
  then show ?case
    by (fastforce simp: Let_def split: if_splits)
qed

lemma LastN_loop_kept:
  "take (LastN_len previous n i xs) xs = kept previous (budget n) xs"
proof (induction xs arbitrary: previous n i)
  case Nil
  then show ?case by (simp add: LastN_len_def)
next
  case (Cons r rs)
  have step: "LastN_len p m i (r # rs) = Suc (LastN_len p' m' (i + 1) rs)"
    if "LastN_loop p m i (r # rs) = LastN_loop p' m' (i + 1) rs" for p m p' m'
  proof (cases "LastN_loop p' m' (i + 1) rs")
    case None
    then show ?thesis
      using that by (simp add: LastN_len_def)
  next
    case (Some j)
    then have "i + 1 \<le> j"
      using LastN_loop_bounds by blast
    then show ?thesis
      using that Some by (simp add: LastN_len_def)
  qed
  show ?case
  proof (cases "MajorMinor (TagName r) = previous")
    case True
    then have "LastN_loop previous n i (r # rs) = LastN_loop previous n (i + 1) rs"
      by simp
    from step [OF this] show ?thesis
      using True Cons.IH [of previous n "i + 1"] by simp
  next
    case False
    show ?thesis
    proof (cases "n - 1 = 0")
      case True
      then show ?thesis
        using False budget_one [of n] by (simp add: LastN_len_def)
    next
      case nz: False
      then have "LastN_loop previous n i (r # rs) =
          LastN_loop (MajorMinor (TagName r)) (n - 1) (i + 1) rs"
        using False by simp
      from step [OF this] show ?thesis
        using False nz budget_one [of n] budget_dec [OF nz]
          Cons.IH [of "MajorMinor (TagName r)" "n - 1" "i + 1"]
        by simp
    qed
  qed
qed

lemma LastN_loop_None:
  "budget n > length xs \<Longrightarrow> LastN_loop previous n i xs = None"
proof (induction xs arbitrary: previous n i)
  case Nil
  then show ?case by simp
next
  case (Cons r rs)
  from Cons.prems have "budget n \<noteq> 1"
    by simp
  then have nz: "n - 1 \<noteq> 0"
    using budget_one by blast
  have "budget (n - 1) > length rs"
    using Cons.prems budget_dec [OF nz] by simp
  then show ?case
    using nz Cons.IH Cons.prems by (simp add: Let_def)
qed

lemma budget_nonpositive:
  assumes "sint n \<le> 0"
  shows "2 ^ 63 \<le> budget n"
proof (cases "n = 0")
  case True
  then show ?thesis by (simp add: budget_def)
next
  case False
  then show ?thesis
    using unat_negative [OF sint_nonpositive [OF assms False]] by (simp add: budget_def)
qed

lemma budget_positive: "0 < sint n \<Longrightarrow> budget n = nat (sint n)"
  using unat_positive [of n] by (auto simp: budget_def)

lemma skey_series_of: "vkey (series_of r) = skey r"
  by (simp add: series_of_def skey_def mmkey_def)

lemma series_of_eq_iff: "series_of a = series_of b \<longleftrightarrow> skey a = skey b"
  by (simp add: series_of_def skey_def mmkey_inj)

lemma kept_filter:
  assumes "previous = MajorMinor t0"
    and "sorted_wrt (\<lambda>a b. skey b \<le> skey a) ys"
    and "\<forall>y\<in>set ys. skey y \<le> mmkey t0"
    and "0 < c"
  shows "kept previous c ys =
    filter (\<lambda>y. card {k \<in> insert (mmkey t0) (skey ` set ys). skey y < k} < c) ys"
  using assms
proof (induction ys arbitrary: previous t0 c)
  case Nil
  then show ?case by simp
next
  case (Cons r rs)
  let ?P = "mmkey t0"
  define D where "D = (\<lambda>y. card {k \<in> insert ?P (skey ` set (r # rs)). skey y < k})"
  have le_r: "\<forall>y\<in>set rs. skey y \<le> skey r"
    using Cons.prems(2) by simp
  have sorted_rs: "sorted_wrt (\<lambda>a b. skey b \<le> skey a) rs"
    using Cons.prems(2) by simp
  have r_le: "skey r \<le> ?P"
    using Cons.prems(3) by simp
  have main: "kept previous c (r # rs) = filter (\<lambda>y. D y < c) (r # rs)"
  proof (cases "MajorMinor (TagName r) = previous")
    case True
    then have eq: "skey r = ?P"
      using Cons.prems(1) by (simp add: skey_def mmkey_inj)
    define D0 where "D0 = (\<lambda>y. card {k \<in> insert ?P (skey ` set rs). skey y < k})"
    have e: "{k \<in> insert ?P (skey ` set (r # rs)). skey r < k} = {}"
      using Cons.prems(3) eq by auto
    have keep_r: "D r < c"
      unfolding D_def e using Cons.prems(4) by simp
    have same: "insert ?P (skey ` set (r # rs)) = insert ?P (skey ` set rs)"
      using eq by auto
    have DD: "D = D0"
      unfolding D_def D0_def same ..
    have "\<forall>y\<in>set rs. skey y \<le> ?P"
      using Cons.prems(3) by simp
    from Cons.IH [OF Cons.prems(1) sorted_rs this Cons.prems(4)]
    have "kept previous c rs = filter (\<lambda>y. D0 y < c) rs"
      unfolding D0_def .
    then show ?thesis
      using True keep_r unfolding DD by simp
  next
    case False
    then have "skey r \<noteq> ?P"
      using Cons.prems(1) by (simp add: skey_def mmkey_inj)
    with r_le have lt: "skey r < ?P"
      by simp
    show ?thesis
    proof (cases "c = 1")
      case True
      have "D y \<noteq> 0" if "y \<in> set (r # rs)" for y
      proof -
        define S where "S = {k \<in> insert ?P (skey ` set (r # rs)). skey y < k}"
        from that le_r have "skey y \<le> skey r"
          by auto
        with lt have "?P \<in> S"
          by (simp add: S_def)
        moreover have "finite S"
          by (simp add: S_def)
        ultimately have "card S \<noteq> 0"
          by auto
        then show ?thesis
          unfolding S_def D_def .
      qed
      then have "filter (\<lambda>y. D y < c) (r # rs) = []"
        unfolding True filter_empty_conv by simp
      then show ?thesis
        using False True by simp
    next
      case c: False
      with Cons.prems(4) have c1: "0 < c - 1" and c2: "1 < c"
        by simp_all
      define D1 where
        "D1 = (\<lambda>y. card {k \<in> insert (mmkey (TagName r)) (skey ` set rs). skey y < k})"
      have e: "{k \<in> insert ?P (skey ` set (r # rs)). skey r < k} = {?P}"
        using lt le_r by auto
      have keep_r: "D r < c"
        unfolding D_def e using c2 by simp
      have step: "D y = Suc (D1 y)" if "y \<in> set rs" for y
      proof -
        define S where "S = {k \<in> insert (mmkey (TagName r)) (skey ` set rs). skey y < k}"
        from that le_r lt have "skey y < ?P"
          by auto
        then have split: "{k \<in> insert ?P (skey ` set (r # rs)). skey y < k} = insert ?P S"
          by (auto simp: S_def skey_def)
        have "?P \<notin> S"
          using lt le_r by (auto simp: S_def skey_def)
        moreover have "finite S"
          by (simp add: S_def)
        ultimately have "card (insert ?P S) = Suc (card S)"
          by (rule card_insert_disjoint [rotated])
        then have "card {k \<in> insert ?P (skey ` set (r # rs)). skey y < k} = Suc (card S)"
          unfolding split .
        then show ?thesis
          unfolding D_def D1_def S_def .
      qed
      have "\<forall>y\<in>set rs. skey y \<le> mmkey (TagName r)"
        using le_r by (simp add: skey_def)
      from Cons.IH [OF refl sorted_rs this c1]
      have "kept (MajorMinor (TagName r)) (c - 1) rs = filter (\<lambda>y. D1 y < c - 1) rs"
        unfolding D1_def .
      also have "\<dots> = filter (\<lambda>y. D y < c) rs"
        using c2 by (intro filter_cong refl) (auto simp: step)
      finally show ?thesis
        using False c keep_r by simp
    qed
  qed
  then show ?case
    unfolding D_def .
qed

lemma newer_series_card:
  "length (newer_series rs r) = card {k \<in> skey ` set rs. skey r < k}"
proof -
  let ?M = "{m \<in> series_of ` set rs. Compare m (series_of r) > 0}"
  have "set (filter (\<lambda>m. Compare m (series_of r) > 0) (map series_of rs)) = ?M"
    by auto
  then have "length (newer_series rs r) = card ?M"
    by (simp only: newer_series_def length_remdups_card_conv)
  moreover have "vkey ` ?M = {k \<in> skey ` set rs. skey r < k}"
    by (auto simp: Compare_pos skey_series_of image_iff) (metis skey_series_of)
  moreover have "inj_on vkey ?M"
    by (auto simp: inj_on_def skey_series_of series_of_eq_iff)
  ultimately show ?thesis
    using card_image [of vkey ?M] by (simp only:)
qed

lemma sort_in_place_fresh:
  assumes "length rs = n"
  shows "sort_in_place \<lparr>base = length h, off = 0, len = n\<rparr> (h @ [rs])
    = h @ [sort_Sort Release_Less rs]"
proof (cases "n = 0")
  case True
  with assms show ?thesis
    by (simp add: sort_in_place_def sort_Sort_def)
next
  case False
  with assms show ?thesis
    by (simp add: sort_in_place_def slice_read_def)
qed

lemma slice_read_fresh:
  "slice_read (h @ [xs]) \<lparr>base = length h, off = 0, len = n\<rparr> = take n xs"
  by (simp add: slice_read_def)

lemma LastN_eval:
  assumes wf: "wf_slice h s" and ne: "len s \<noteq> 0"
  shows "LastN minors s h =
    (Inr \<lparr>base = length h, off = 0,
          len = LastN_len (series_of (hd (sort_Sort Release_Less (slice_read h s)))) minors 0
                  (sort_Sort Release_Less (slice_read h s))\<rparr>,
     h @ [sort_Sort Release_Less (slice_read h s)])"
proof -
  define rs where "rs = slice_read h s"
  define srt where "srt = sort_Sort Release_Less rs"
  have lrs: "length rs = len s"
    unfolding rs_def by (rule length_slice_read [OF wf])
  have lsrt: "length srt = len s"
    by (simp add: srt_def length_sort_Sort lrs)
  have h2: "sort_in_place \<lparr>base = length h, off = 0, len = len s\<rparr> (h @ [rs]) = h @ [srt]"
    unfolding srt_def by (rule sort_in_place_fresh [OF lrs])
  have rd: "slice_read (h @ [srt]) \<lparr>base = length h, off = 0, len = len s\<rparr> = srt"
    by (simp add: slice_read_fresh lsrt)
  have "srt \<noteq> []"
    using lsrt ne by auto
  then have hd: "srt ! 0 = hd srt"
    by (simp add: hd_conv_nth)
  show ?thesis
    unfolding rs_def [symmetric] srt_def [symmetric]
    using ne lsrt
    by (cases "LastN_loop (series_of (hd srt)) minors 0 srt")
       (simp_all add: LastN_def Let_def rs_def [symmetric] h2 rd hd LastN_len_def
          series_of_def)
qed

lemma LastN_empty:
  "len s = 0 \<Longrightarrow> fst (LastN minors s h) = Inl PanicIndexOutOfRange"
  by (simp add: LastN_def Let_def)

lemma LastN_heap:
  "snd (LastN minors s h) =
    sort_in_place \<lparr>base = length h, off = 0, len = len s\<rparr> (h @ [slice_read h s])"
  by (simp add: LastN_def Let_def split: option.splits)

lemma LastN_frame_heap: "take (length h) (snd (LastN minors s h)) = h"
proof -
  have "take (length h) (sort_in_place \<lparr>base = length h, off = 0, len = n\<rparr> (h @ [xs])) = h"
    for n xs
    by (simp add: sort_in_place_def)
  then show ?thesis
    by (simp only: LastN_heap)
qed

lemma sorted_desc: "sorted_wrt (\<lambda>a b. \<not> Release_Less b a) (sort_Sort Release_Less xs)"
  by (rule sorted_wrt_mono_rel [OF _ sorted_releases]) (simp add: Release_Less_rkey not_less)

lemma newer_series_set:
  "set rs = set rs' \<Longrightarrow> length (newer_series rs r) = length (newer_series rs' r)"
  by (simp add: newer_series_card)

lemma newer_series_less:
  assumes "r \<in> set rs"
  shows "length (newer_series rs r) < length (remdups (map series_of rs))"
proof -
  let ?M = "{m \<in> series_of ` set rs. Compare m (series_of r) > 0}"
  have "set (filter (\<lambda>m. Compare m (series_of r) > 0) (map series_of rs)) = ?M"
    by auto
  then have 1: "length (newer_series rs r) = card ?M"
    by (simp only: newer_series_def length_remdups_card_conv)
  have 2: "length (remdups (map series_of rs)) = card (series_of ` set rs)"
    by (simp add: length_remdups_card_conv)
  have "series_of r \<in> series_of ` set rs" and "series_of r \<notin> ?M"
    using assms by (simp_all add: Compare_refl)
  then have "?M \<subset> series_of ` set rs"
    by blast
  then have "card ?M < card (series_of ` set rs)"
    by (intro psubset_card_mono) simp_all
  then show ?thesis
    by (simp only: 1 2)
qed

lemma LastN_result:
  assumes wf: "wf_slice h s" and ne: "len s \<noteq> 0"
  shows "\<exists>t. LastN minors s h = (Inr t, h @ [sort_Sort Release_Less (slice_read h s)]) \<and>
    slice_read (h @ [sort_Sort Release_Less (slice_read h s)]) t =
      filter (\<lambda>r. length (newer_series (slice_read h s) r) < budget minors)
        (sort_Sort Release_Less (slice_read h s))"
proof -
  define rs where "rs = slice_read h s"
  define srt where "srt = sort_Sort Release_Less rs"
  define L where "L = LastN_len (series_of (hd srt)) minors 0 srt"
  have "length srt = len s"
    by (simp add: srt_def rs_def length_sort_Sort length_slice_read [OF wf])
  with ne obtain x xs where srt: "srt = x # xs"
    by (cases srt) auto
  have sorted: "sorted_wrt (\<lambda>a b. skey b \<le> skey a) srt"
    unfolding srt_def by (rule sorted_series)
  then have top: "\<forall>y\<in>set srt. skey y \<le> mmkey (TagName x)"
    by (auto simp: srt skey_def)
  have ins: "insert (mmkey (TagName x)) (skey ` set srt) = skey ` set srt"
    by (auto simp: srt skey_def)
  have "take L srt = kept (series_of (hd srt)) (budget minors) srt"
    unfolding L_def by (rule LastN_loop_kept)
  also have "\<dots> = filter (\<lambda>y. card {k \<in> insert (mmkey (TagName x)) (skey ` set srt).
      skey y < k} < budget minors) srt"
    by (rule kept_filter [OF _ sorted top budget_pos]) (simp add: srt series_of_def)
  also have "\<dots> = filter (\<lambda>y. length (newer_series srt y) < budget minors) srt"
    unfolding ins by (simp only: newer_series_card)
  also have "\<dots> = filter (\<lambda>y. length (newer_series rs y) < budget minors) srt"
    using newer_series_set [of srt rs] by (simp add: srt_def set_sort_Sort)
  finally have "take L srt = filter (\<lambda>y. length (newer_series rs y) < budget minors) srt" .
  then have "slice_read (h @ [srt]) \<lparr>base = length h, off = 0, len = L\<rparr> =
      filter (\<lambda>r. length (newer_series rs r) < budget minors) srt"
    by (simp only: slice_read_fresh)
  moreover have "LastN minors s h = (Inr \<lparr>base = length h, off = 0, len = L\<rparr>, h @ [srt])"
    unfolding L_def srt_def rs_def by (rule LastN_eval [OF wf ne])
  ultimately show ?thesis
    unfolding srt_def rs_def by blast
qed

section \<open>Properties of the alignment\<close>

lemma series_loop_started:
  "start \<noteq> - 1 \<Longrightarrow> (\<forall>b\<in>set B. Compare mm (series_of b) = 0) \<Longrightarrow>
   (\<forall>c\<in>set C. Compare mm (series_of c) > 0) \<Longrightarrow> e = i + int (length (B @ C)) \<Longrightarrow>
   series_loop mm start e i (B @ C) = (start, i + int (length B))"
proof (induction B arbitrary: i)
  case Nil
  then show ?case
    by (cases C) (simp_all add: series_of_def Let_def)
next
  case (Cons b B)
  have "series_loop mm start e (i + 1) (B @ C) = (start, i + 1 + int (length B))"
    using Cons.prems by (intro Cons.IH) simp_all
  then show ?case
    using Cons.prems by (simp add: series_of_def Let_def)
qed

lemma series_loop_blocks:
  assumes "\<forall>a\<in>set A. Compare mm (series_of a) < 0"
    and "\<forall>b\<in>set B. Compare mm (series_of b) = 0"
    and "\<forall>c\<in>set C. Compare mm (series_of c) > 0"
    and "e = i + int (length (A @ B @ C))" and "0 \<le> i"
  shows "series_loop mm (- 1) e i (A @ B @ C) =
    (if B = [] then - 1 else i + int (length A), i + int (length A) + int (length B))"
  using assms
proof (induction A arbitrary: i)
  case Nil
  show ?case
  proof (cases B)
    case Nil
    then show ?thesis
      using Nil.prems by (cases C) (simp_all add: series_of_def Let_def)
  next
    case (Cons b B')
    have "i \<noteq> - 1"
      using Nil.prems(5) by simp
    then have "series_loop mm i e (i + 1) (B' @ C) = (i, i + 1 + int (length B'))"
      using Nil.prems Cons by (intro series_loop_started) simp_all
    then show ?thesis
      using Nil.prems Cons by (simp add: series_of_def Let_def)
  qed
next
  case (Cons a A)
  have "series_loop mm (- 1) e (i + 1) (A @ B @ C) =
    (if B = [] then - 1 else i + 1 + int (length A), i + 1 + int (length A) + int (length B))"
    using Cons.prems by (intro Cons.IH) simp_all
  then show ?case
    using Cons.prems by (simp add: series_of_def Let_def)
qed

lemma sorted_blocks:
  fixes g :: "'a \<Rightarrow> 'k::linorder"
  assumes "sorted_wrt (\<lambda>a b. g b \<le> g a) xs"
  shows "\<exists>A B C. xs = A @ B @ C \<and> (\<forall>a\<in>set A. T < g a) \<and> (\<forall>b\<in>set B. g b = T)
    \<and> (\<forall>c\<in>set C. g c < T)"
  using assms
proof (induction xs)
  case Nil
  then show ?case by simp
next
  case (Cons x xs)
  then obtain A B C where xs: "xs = A @ B @ C" and A: "\<forall>a\<in>set A. T < g a"
    and B: "\<forall>b\<in>set B. g b = T" and C: "\<forall>c\<in>set C. g c < T"
    by auto
  have le: "\<forall>y\<in>set xs. g y \<le> g x"
    using Cons.prems by simp
  consider "T < g x" | "g x = T" | "g x < T"
    by (metis not_less_iff_gr_or_eq)
  then show ?case
  proof cases
    case 1
    have "x # xs = (x # A) @ B @ C"
      by (simp add: xs)
    moreover have "\<forall>a\<in>set (x # A). T < g a"
      using 1 A by simp
    ultimately show ?thesis
      using B C by blast
  next
    case 2
    have "A = []"
    proof (cases A)
      case (Cons a A')
      then have "T < g a" and "g a \<le> g x"
        using A le xs by simp_all
      with 2 show ?thesis by simp
    qed simp
    then have "x # xs = [] @ (x # B) @ C"
      by (simp add: xs)
    moreover have "\<forall>b\<in>set (x # B). g b = T"
      using 2 B by simp
    ultimately show ?thesis
      using C by (metis empty_iff empty_set)
  next
    case 3
    then have "\<forall>c\<in>set (x # xs). g c < T"
      using le by auto
    moreover have "x # xs = [] @ [] @ (x # xs)"
      by simp
    ultimately show ?thesis
      by (metis empty_iff empty_set)
  qed
qed

lemma time_loop_found:
  assumes "\<exists>c\<in>set B. Created c < t"
  shows "time_loop t tm i B = i + int (length (takeWhile (\<lambda>c. \<not> Created c < t) B))"
  using assms
proof (induction B arbitrary: i)
  case Nil
  then show ?case by simp
next
  case (Cons a B)
  show ?case
  proof (cases "Created a < t")
    case True
    then show ?thesis by simp
  next
    case False
    with Cons.prems have "\<exists>c\<in>set B. Created c < t"
      by auto
    from Cons.IH [OF this, of "i + 1"] False show ?thesis
      by simp
  qed
qed

lemma time_loop_none:
  "\<forall>c\<in>set B. \<not> Created c < t \<Longrightarrow> time_loop t tm i B = tm"
  by (induction B arbitrary: i) auto

lemma comp_neg: "Compare (series_of r) (series_of c) < 0 \<longleftrightarrow> skey r < skey c"
proof -
  have "Compare (series_of r) (series_of c) \<le> 0 \<longleftrightarrow> skey r \<le> skey c"
    by (simp add: Compare_le skey_series_of)
  moreover have "Compare (series_of r) (series_of c) = 0 \<longleftrightarrow> skey r = skey c"
    by (simp add: series_of_def Compare_MajorMinor_zero skey_def mmkey_inj)
  ultimately show ?thesis
    by auto
qed

lemma comp_zero: "Compare (series_of r) (series_of c) = 0 \<longleftrightarrow> series_of c = series_of r"
  by (auto simp: series_of_def Compare_MajorMinor_zero)

lemma comp_pos: "Compare (series_of r) (series_of c) > 0 \<longleftrightarrow> skey c < skey r"
  by (simp add: Compare_pos skey_series_of)

text \<open>The sorted candidates split into the newer series, the series of the target and
  the older series.\<close>

lemma candidates_blocks:
  "\<exists>A B C. sort_Sort Release_Less xs = A @ B @ C \<and>
     (\<forall>a\<in>set A. Compare (series_of r) (series_of a) < 0) \<and>
     (\<forall>b\<in>set B. Compare (series_of r) (series_of b) = 0) \<and>
     (\<forall>c\<in>set C. Compare (series_of r) (series_of c) > 0)"
proof -
  from sorted_blocks [OF sorted_series, of xs "skey r"]
  obtain A B C where "sort_Sort Release_Less xs = A @ B @ C"
    and "\<forall>a\<in>set A. skey r < skey a" and "\<forall>b\<in>set B. skey b = skey r"
    and "\<forall>c\<in>set C. skey c < skey r"
    by blast
  then show ?thesis
    using comp_neg [of r] comp_pos [of r] comp_zero [of r] series_of_eq_iff [of _ r]
    by (intro exI [of _ A] exI [of _ B] exI [of _ C]) simp
qed

lemma takeWhile_short: "\<exists>x\<in>set xs. \<not> Q x \<Longrightarrow> length (takeWhile Q xs) < length xs"
  by (induction xs) auto

lemma align_blocks:
  assumes wf: "wf_slice h s"
    and split: "sort_Sort Release_Less (slice_read h s) = A @ B @ C"
    and A: "\<forall>a\<in>set A. Compare (series_of r) (series_of a) < 0"
    and B: "\<forall>b\<in>set B. Compare (series_of r) (series_of b) = 0"
    and C: "\<forall>c\<in>set C. Compare (series_of r) (series_of c) > 0"
  shows "fst (align r s h) = (if B = [] then Inl PanicSliceBounds else Inr (pick (Created r) B))"
proof -
  define cs where "cs = sort_Sort Release_Less (slice_read h s)"
  have rd: "slice_read (sort_in_place s h) s = cs"
    unfolding cs_def by (rule slice_read_sort_in_place [OF wf])
  have l: "int (len s) = 0 + int (length (A @ B @ C))"
    using split by (simp add: length_sort_Sort length_slice_read [OF wf] flip: split)
  have loop: "series_loop (series_of r) (- 1) (int (len s)) 0 cs =
      (if B = [] then - 1 else 0 + int (length A), 0 + int (length A) + int (length B))"
    unfolding cs_def split by (rule series_loop_blocks [OF A B C l]) simp
  show ?thesis
  proof (cases "B = []")
    case True
    then show ?thesis
      using loop by (simp add: align_def Let_def rd series_of_def)
  next
    case False
    have block: "take (nat (int (length A) + int (length B) - int (length A))) (drop (nat (int (length A))) cs) = B"
      by (simp add: cs_def split)
    have bounds: "\<not> (int (length A) < 0 \<or> int (length A) + int (length B) < int (length A)
        \<or> int (len s) < int (length A) + int (length B))"
      using l by simp
    show ?thesis
    proof (cases "\<exists>c\<in>set B. Created c < Created r")
      case True
      define k where "k = length (takeWhile (\<lambda>c. \<not> Created c < Created r) B)"
      have tm: "time_loop (Created r) (int (length B) - 1) 0 B = int k"
        using time_loop_found [OF True, of "int (length B) - 1" 0] by (simp add: k_def)
      have "k < length B"
        unfolding k_def using True by (intro takeWhile_short) simp
      then show ?thesis
        using False loop bounds True tm block
        by (simp add: align_def Let_def rd series_of_def pick_def k_def)
    next
      case none: False
      then have tm: "time_loop (Created r) (int (length B) - 1) 0 B = int (length B) - 1"
        by (intro time_loop_none) simp
      have "B ! nat (int (length B) - 1) = last B"
        using False by (simp add: last_conv_nth nat_diff_distrib')
      then show ?thesis
        using False loop bounds none tm block
        by (simp add: align_def Let_def rd series_of_def pick_def)
    qed
  qed
qed

lemma pick_found:
  assumes sorted: "sorted_wrt (\<lambda>a b. rkey b \<le> rkey a) B"
    and ex: "\<exists>c\<in>set B. Created c < t"
  shows "pick t B \<in> set B" and "Created (pick t B) < t"
    and "\<forall>c'\<in>set B. Created c' < t \<longrightarrow> rkey c' \<le> rkey (pick t B)"
proof -
  define Q where "Q = (\<lambda>c :: Release. \<not> Created c < t)"
  define k where "k = length (takeWhile Q B)"
  have k: "k < length B"
    unfolding k_def using ex by (intro takeWhile_short) (simp add: Q_def)
  have p: "pick t B = B ! k"
    using ex by (simp add: pick_def k_def Q_def)
  show "pick t B \<in> set B"
    using k by (simp add: p)
  have "\<not> Q (B ! k)"
    using k unfolding k_def by (rule nth_length_takeWhile)
  then show "Created (pick t B) < t"
    by (simp add: p Q_def)
  show "\<forall>c'\<in>set B. Created c' < t \<longrightarrow> rkey c' \<le> rkey (pick t B)"
  proof (intro ballI impI)
    fix c' assume "c' \<in> set B" and c': "Created c' < t"
    then obtain j where j: "j < length B" and cj: "c' = B ! j"
      by (auto simp: in_set_conv_nth)
    have "\<not> j < k"
    proof
      assume "j < k"
      then have "takeWhile Q B ! j = B ! j"
        unfolding k_def by (rule takeWhile_nth)
      moreover have "takeWhile Q B ! j \<in> set (takeWhile Q B)"
        using \<open>j < k\<close> by (simp add: k_def)
      ultimately have "Q (B ! j)"
        by (metis set_takeWhileD)
      with c' cj show False
        by (simp add: Q_def)
    qed
    then consider "j = k" | "k < j"
      by linarith
    then show "rkey c' \<le> rkey (pick t B)"
    proof cases
      case 1
      then show ?thesis by (simp add: p cj)
    next
      case 2
      with sorted j show ?thesis
        by (simp add: p cj sorted_wrt_iff_nth_less)
    qed
  qed
qed

lemma pick_none:
  assumes sorted: "sorted_wrt (\<lambda>a b. rkey b \<le> rkey a) B"
    and ne: "B \<noteq> []"
    and none: "\<not> (\<exists>c\<in>set B. Created c < t)"
  shows "pick t B \<in> set B" and "\<forall>c'\<in>set B. rkey (pick t B) \<le> rkey c'"
proof -
  have p: "pick t B = B ! (length B - 1)"
    using none ne by (simp add: pick_def last_conv_nth)
  show "pick t B \<in> set B"
    using ne by (simp add: p)
  show "\<forall>c'\<in>set B. rkey (pick t B) \<le> rkey c'"
  proof
    fix c' assume "c' \<in> set B"
    then obtain j where j: "j < length B" and cj: "c' = B ! j"
      by (auto simp: in_set_conv_nth)
    then consider "j = length B - 1" | "j < length B - 1"
      by linarith
    then show "rkey (pick t B) \<le> rkey c'"
    proof cases
      case 1
      then show ?thesis by (simp add: p cj)
    next
      case 2
      with sorted ne show ?thesis
        by (simp add: p cj sorted_wrt_iff_nth_less)
    qed
  qed
qed

section \<open>LastN: the claims\<close>

text \<open>
  Claim C2. For every positive \<open>n\<close> and every non-empty collection of releases, \<open>LastN\<close>
  returns exactly the releases of the \<open>n\<close> most recent distinct major.minor series: the
  result is sorted descending by full version, and it holds every release of the input
  (with its multiplicity) for which fewer than \<open>n\<close> series of the input are newer than
  its own, and nothing else. If the input has at most \<open>n\<close> distinct series, the result
  holds every release. (The tags need not even be valid: all invalid tags form one
  series, the empty one, which is older than every other.)
\<close>

theorem LastN_keeps_newest_series:
  assumes "wf_slice h s" and "len s \<noteq> 0" and "0 < sint minors"
  shows "\<exists>t h'. LastN minors s h = (Inr t, h') \<and>
    sorted_wrt (\<lambda>a b. \<not> Release_Less b a) (slice_read h' t) \<and>
    mset (slice_read h' t) =
      filter_mset (\<lambda>r. length (newer_series (slice_read h s) r) < nat (sint minors))
        (mset (slice_read h s)) \<and>
    (length (remdups (map series_of (slice_read h s))) \<le> nat (sint minors) \<longrightarrow>
      mset (slice_read h' t) = mset (slice_read h s))"
proof -
  define rs where "rs = slice_read h s"
  define srt where "srt = sort_Sort Release_Less rs"
  define n where "n = nat (sint minors)"
  have b: "budget minors = n"
    unfolding n_def by (rule budget_positive [OF assms(3)])
  from LastN_result [OF assms(1,2), of minors] obtain t where
    t: "LastN minors s h = (Inr t, h @ [srt])"
    and rd: "slice_read (h @ [srt]) t = filter (\<lambda>r. length (newer_series rs r) < n) srt"
    unfolding srt_def rs_def b by blast
  have 1: "sorted_wrt (\<lambda>a b. \<not> Release_Less b a) (slice_read (h @ [srt]) t)"
    unfolding rd by (simp add: srt_def sorted_wrt_filter sorted_desc)
  have 2: "mset (slice_read (h @ [srt]) t) =
      filter_mset (\<lambda>r. length (newer_series rs r) < n) (mset rs)"
    unfolding rd by (simp add: srt_def mset_sort_Sort)
  have 3: "mset (slice_read (h @ [srt]) t) = mset rs"
    if "length (remdups (map series_of rs)) \<le> n"
  proof -
    have "\<forall>r\<in>set rs. length (newer_series rs r) < n"
      using newer_series_less [of _ rs] that by fastforce
    then have "filter_mset (\<lambda>r. length (newer_series rs r) < n) (mset rs) = mset rs"
      by (simp add: filter_mset_eq_conv)
    then show ?thesis
      by (simp only: 2)
  qed
  show ?thesis
    using t 1 2 3 unfolding rs_def [symmetric] n_def [symmetric] by blast
qed

text \<open>The example of three series with two patches each and \<open>n = 2\<close>: the four releases
  of the series 1.2 and 1.1 are returned, those of 1.0 are dropped.\<close>

theorem LastN_keeps_newest_series_witness:
  "wf_slice h_three s_three \<and> len s_three \<noteq> 0 \<and> 0 < sint (2 :: 64 word) \<and>
   LastN 2 s_three h_three =
     (Inr \<lparr>base = 1, off = 0, len = 4\<rparr>,
      h_three @ [[rel ''v1.2.1'' 50, rel ''v1.2.0'' 40, rel ''v1.1.1'' 30, rel ''v1.1.0'' 20,
                  rel ''v1.0.1'' 10, rel ''v1.0.0'' 0]]) \<and>
   (\<exists>t h'. LastN 2 s_three h_three = (Inr t, h') \<and>
      sorted_wrt (\<lambda>a b. \<not> Release_Less b a) (slice_read h' t) \<and>
      mset (slice_read h' t) =
        filter_mset (\<lambda>r. length (newer_series (slice_read h_three s_three) r)
                            < nat (sint (2 :: 64 word)))
          (mset (slice_read h_three s_three)) \<and>
      (length (remdups (map series_of (slice_read h_three s_three)))
          \<le> nat (sint (2 :: 64 word)) \<longrightarrow>
        mset (slice_read h' t) = mset (slice_read h_three s_three)))"
proof -
  have h1: "wf_slice h_three s_three"
    by (simp add: wf_slice_def h_three_def s_three_def)
  have h2: "len s_three \<noteq> 0"
    by (simp add: s_three_def)
  have h3: "0 < sint (2 :: 64 word)"
    by simp
  have ev: "LastN 2 s_three h_three =
     (Inr \<lparr>base = 1, off = 0, len = 4\<rparr>,
      h_three @ [[rel ''v1.2.1'' 50, rel ''v1.2.0'' 40, rel ''v1.1.1'' 30, rel ''v1.1.0'' 20,
                  rel ''v1.0.1'' 10, rel ''v1.0.0'' 0]])"
    by code_simp
  show ?thesis
    by (intro conjI h1 h2 h3 ev LastN_keeps_newest_series [OF h1 h2 h3])
qed

text \<open>
  Claim C7. The claim asks that \<open>LastN\<close> on an empty collection fail in an orderly
  way and not crash. The source evaluates \<open>retval[0]\<close> without testing the length
  first: on every empty collection, whatever the count, the call panics with an index
  out of range. The empty case is missed; the panic is a defect of the source, not a
  behaviour it intends.
\<close>

theorem LastN_empty_panics:
  "len s = 0 \<Longrightarrow>
    fst (LastN minors s h) = Inl PanicIndexOutOfRange \<and> is_panic PanicIndexOutOfRange"
  by (simp add: LastN_empty)

theorem LastN_empty_panics_witness:
  "len nil_slice = 0 \<and> fst (LastN 1 nil_slice h_three) = Inl PanicIndexOutOfRange \<and>
   is_panic PanicIndexOutOfRange"
proof -
  have h1: "len nil_slice = 0"
    by (simp add: nil_slice_def)
  show ?thesis
    using LastN_empty_panics [OF h1, of 1 h_three] h1 by simp
qed

text \<open>The failing input in full: the nil slice and the count 3.\<close>

theorem LastN_nil_slice_panics:
  "fst (LastN 3 nil_slice []) = Inl PanicIndexOutOfRange \<and> is_panic PanicIndexOutOfRange"
  by (simp add: LastN_def nil_slice_def sort_in_place_def)

text \<open>
  Claim C9. \<open>LastN\<close> leaves its input unchanged: every backing array that existed before
  the call is the same after it (the sorted copy is a new array), so the caller's slice
  reads the same releases in the same order.
\<close>

theorem LastN_leaves_input:
  assumes "wf_slice h s"
  shows "take (length h) (snd (LastN minors s h)) = h \<and>
    slice_read (snd (LastN minors s h)) s = slice_read h s"
proof -
  have fr: "take (length h) (snd (LastN minors s h)) = h"
    by (rule LastN_frame_heap)
  have "slice_read (snd (LastN minors s h)) s = slice_read h s"
  proof (cases "len s = 0")
    case True
    then show ?thesis
      by (simp add: slice_read_def)
  next
    case False
    with assms have "base s < length h"
      by (simp add: wf_slice_def)
    then have "snd (LastN minors s h) ! base s = take (length h) (snd (LastN minors s h)) ! base s"
      by simp
    then have "snd (LastN minors s h) ! base s = h ! base s"
      by (simp only: fr)
    then show ?thesis
      by (simp add: slice_read_def)
  qed
  with fr show ?thesis
    by simp
qed

theorem LastN_leaves_input_witness:
  "wf_slice h_three s_three \<and>
   take (length h_three) (snd (LastN 2 s_three h_three)) = h_three \<and>
   slice_read (snd (LastN 2 s_three h_three)) s_three = slice_read h_three s_three \<and>
   slice_read h_three s_three \<noteq> sort_Sort Release_Less (slice_read h_three s_three)"
proof -
  have h1: "wf_slice h_three s_three"
    by (simp add: wf_slice_def h_three_def s_three_def)
  have ne: "slice_read h_three s_three \<noteq> sort_Sort Release_Less (slice_read h_three s_three)"
    by code_simp
  show ?thesis
    using LastN_leaves_input [OF h1, of 2] h1 ne by simp
qed

text \<open>
  Claim C10. For every non-empty collection and every \<open>n \<le> 0\<close>, \<open>LastN\<close> truncates
  nothing and returns the whole collection sorted descending by full version: the counter
  is decremented before it is compared with zero, and from a non-positive start it
  cannot come back to zero within the length of a slice (a length is a non-negative
  64-bit \<open>int\<close>, hence below \<open>2 ^ 63\<close>).
\<close>

theorem LastN_nonpositive_keeps_all:
  assumes "wf_slice h s" and "len s \<noteq> 0" and "sint minors \<le> 0" and "len s < 2 ^ 63"
  shows "LastN minors s h =
      (Inr \<lparr>base = length h, off = 0, len = len s\<rparr>,
       h @ [sort_Sort Release_Less (slice_read h s)]) \<and>
    slice_read (h @ [sort_Sort Release_Less (slice_read h s)])
      \<lparr>base = length h, off = 0, len = len s\<rparr> = sort_Sort Release_Less (slice_read h s) \<and>
    mset (sort_Sort Release_Less (slice_read h s)) = mset (slice_read h s) \<and>
    sorted_wrt (\<lambda>a b. \<not> Release_Less b a) (sort_Sort Release_Less (slice_read h s))"
proof -
  define srt where "srt = sort_Sort Release_Less (slice_read h s)"
  have l: "length srt = len s"
    by (simp add: srt_def length_sort_Sort length_slice_read [OF assms(1)])
  have "length srt < budget minors"
    using budget_nonpositive [OF assms(3)] assms(4) l by simp
  then have "LastN_loop (series_of (hd srt)) minors 0 srt = None"
    by (rule LastN_loop_None)
  then have "LastN_len (series_of (hd srt)) minors 0 srt = len s"
    by (simp add: LastN_len_def l)
  then have "LastN minors s h = (Inr \<lparr>base = length h, off = 0, len = len s\<rparr>, h @ [srt])"
    using LastN_eval [OF assms(1,2), of minors] by (simp add: srt_def)
  moreover have "slice_read (h @ [srt]) \<lparr>base = length h, off = 0, len = len s\<rparr> = srt"
    by (simp add: slice_read_fresh l)
  ultimately show ?thesis
    unfolding srt_def by (simp add: mset_sort_Sort sorted_desc)
qed

theorem LastN_nonpositive_keeps_all_witness:
  "wf_slice h_three s_three \<and> len s_three \<noteq> 0 \<and> sint (- 5 :: 64 word) \<le> 0 \<and>
   len s_three < 2 ^ 63 \<and>
   LastN (- 5) s_three h_three =
     (Inr \<lparr>base = 1, off = 0, len = 6\<rparr>,
      h_three @ [[rel ''v1.2.1'' 50, rel ''v1.2.0'' 40, rel ''v1.1.1'' 30, rel ''v1.1.0'' 20,
                  rel ''v1.0.1'' 10, rel ''v1.0.0'' 0]])"
proof -
  have h1: "wf_slice h_three s_three"
    by (simp add: wf_slice_def h_three_def s_three_def)
  have h2: "len s_three \<noteq> 0"
    by (simp add: s_three_def)
  have h3: "sint (- 5 :: 64 word) \<le> 0"
    by simp
  have h4: "len s_three < 2 ^ 63"
    by (simp add: s_three_def)
  have srt: "sort_Sort Release_Less (slice_read h_three s_three) =
      [rel ''v1.2.1'' 50, rel ''v1.2.0'' 40, rel ''v1.1.1'' 30, rel ''v1.1.0'' 20,
       rel ''v1.0.1'' 10, rel ''v1.0.0'' 0]"
    by code_simp
  have l: "length h_three = 1" and l6: "len s_three = 6"
    by (simp_all add: h_three_def s_three_def)
  from LastN_nonpositive_keeps_all [OF h1 h2 h3 h4]
  have "LastN (- 5) s_three h_three =
     (Inr \<lparr>base = 1, off = 0, len = 6\<rparr>,
      h_three @ [[rel ''v1.2.1'' 50, rel ''v1.2.0'' 40, rel ''v1.1.1'' 30, rel ''v1.1.0'' 20,
                  rel ''v1.0.1'' 10, rel ''v1.0.0'' 0]])"
    unfolding srt l l6 by simp
  then show ?thesis
    using h1 h2 h3 h4 by simp
qed

section \<open>Alignment and HandleRelease: the claims\<close>

text \<open>
  Claim C1, as the source has it. For every target release and every candidate collection
  with at least one release in the target's major.minor series, the alignment selects a
  candidate of that series. If some candidate of the series was created strictly before
  the target (\<open>r.Created.After(srcRelease.Created)\<close>), the selected one was, and no such
  candidate has a greater version; a candidate created at the very instant of the target
  does not qualify. If no candidate of the series was created strictly before the
  target, the selected one is the oldest of the series: no candidate of the series has a
  smaller version.
\<close>

theorem align_selects:
  assumes wf: "wf_slice h s"
    and ex: "\<exists>c\<in>set (slice_read h s). series_of c = series_of r"
  shows "\<exists>c. fst (align r s h) = Inr c \<and> c \<in> set (slice_read h s) \<and>
    series_of c = series_of r \<and>
    (if (\<exists>c'\<in>set (slice_read h s). series_of c' = series_of r \<and> Created c' < Created r)
     then Created c < Created r \<and>
       (\<forall>c'\<in>set (slice_read h s).
          series_of c' = series_of r \<and> Created c' < Created r \<longrightarrow> \<not> Release_Less c' c)
     else (\<forall>c'\<in>set (slice_read h s). series_of c' = series_of r \<longrightarrow> \<not> Release_Less c c'))"
proof -
  define xs where "xs = slice_read h s"
  from candidates_blocks [of xs r] obtain A B C
    where split: "sort_Sort Release_Less xs = A @ B @ C"
      and A: "\<forall>a\<in>set A. Compare (series_of r) (series_of a) < 0"
      and B: "\<forall>b\<in>set B. Compare (series_of r) (series_of b) = 0"
      and C: "\<forall>c\<in>set C. Compare (series_of r) (series_of c) > 0"
    by blast
  have sets: "set xs = set A \<union> set B \<union> set C"
    using split set_sort_Sort [of Release_Less xs] by (metis set_append sup_assoc)
  have inB: "c \<in> set B \<longleftrightarrow> c \<in> set xs \<and> series_of c = series_of r" for c
    using A B C comp_zero [of r c] unfolding sets by fastforce
  from ex have ne: "B \<noteq> []"
    using inB unfolding xs_def [symmetric] by fastforce
  have sortedB: "sorted_wrt (\<lambda>a b. rkey b \<le> rkey a) B"
    using sorted_releases [of xs] unfolding split by (simp add: sorted_wrt_append)
  have res: "fst (align r s h) = Inr (pick (Created r) B)"
    using align_blocks [OF wf split [unfolded xs_def] A B C] ne by simp
  have less: "\<not> Release_Less a b \<longleftrightarrow> rkey a \<le> rkey b" for a b
    by (simp add: Release_Less_rkey not_less)
  show ?thesis
  proof (cases "\<exists>c\<in>set B. Created c < Created r")
    case True
    from pick_found [OF sortedB True] True res show ?thesis
      unfolding xs_def [symmetric] by (intro exI [of _ "pick (Created r) B"]) (auto simp: inB less)
  next
    case False
    from pick_none [OF sortedB ne False] False res show ?thesis
      unfolding xs_def [symmetric] by (intro exI [of _ "pick (Created r) B"]) (auto simp: inB less)
  qed
qed

text \<open>The example of the spec: the target \<open>v1.2.3\<close> created at 10 and the candidates
  \<open>v1.2.0\<close> (0), \<open>v1.2.5\<close> (5), \<open>v1.2.9\<close> (15); the alignment picks \<open>v1.2.5\<close>.\<close>

theorem align_selects_witness:
  "wf_slice h_spec (whole 3) \<and>
   (\<exists>c\<in>set (slice_read h_spec (whole 3)). series_of c = series_of target) \<and>
   fst (align target (whole 3) h_spec) = Inr (rel ''v1.2.5'' 5) \<and>
   (\<exists>c. fst (align target (whole 3) h_spec) = Inr c \<and> c \<in> set (slice_read h_spec (whole 3)) \<and>
      series_of c = series_of target \<and>
      (if (\<exists>c'\<in>set (slice_read h_spec (whole 3)).
             series_of c' = series_of target \<and> Created c' < Created target)
       then Created c < Created target \<and>
         (\<forall>c'\<in>set (slice_read h_spec (whole 3)).
            series_of c' = series_of target \<and> Created c' < Created target
              \<longrightarrow> \<not> Release_Less c' c)
       else (\<forall>c'\<in>set (slice_read h_spec (whole 3)).
               series_of c' = series_of target \<longrightarrow> \<not> Release_Less c c')))"
proof -
  have h1: "wf_slice h_spec (whole 3)"
    by (simp add: wf_slice_def h_spec_def whole_def)
  have h2: "\<exists>c\<in>set (slice_read h_spec (whole 3)). series_of c = series_of target"
    by code_simp
  have ev: "fst (align target (whole 3) h_spec) = Inr (rel ''v1.2.5'' 5)"
    by code_simp
  show ?thesis
    by (intro conjI h1 h2 ev align_selects [OF h1 h2])
qed

text \<open>The claim as the spec words it (the most recent candidate created at or before the
  target) fails when a candidate was created at the very instant of the target:
  \<open>v1.2.5\<close> is in the series, was created at the target's instant and is more recent
  than \<open>v1.2.0\<close>, which is selected.\<close>

theorem align_selects_counterexample:
  "fst (align target (whole 3) h_tie) = Inr (rel ''v1.2.0'' 0) \<and>
   rel ''v1.2.5'' 10 \<in> set (slice_read h_tie (whole 3)) \<and>
   series_of (rel ''v1.2.5'' 10) = series_of target \<and>
   Created (rel ''v1.2.5'' 10) \<le> Created target \<and>
   Release_Less (rel ''v1.2.5'' 10) (rel ''v1.2.0'' 0)"
  by code_simp

text \<open>
  Claim C6. The claim asks that the alignment fail with an error value, and not crash,
  when no candidate shares the target's major.minor series. \<open>HandleRelease\<close> returns
  its other failures as error values, but here the first loop leaves the sentinel
  \<open>start = -1\<close>, which is never tested, and the slice expression
  \<open>candidates[start:end]\<close> panics: for every target release and every candidate
  collection without a release of the target's series (also the empty collection of a
  source that has no entry) the call crashes. The case is missed; the panic is a defect
  of the source, not a behaviour it intends.
\<close>

theorem align_no_series_panics:
  assumes wf: "wf_slice h s"
    and no: "\<forall>c\<in>set (slice_read h s). series_of c \<noteq> series_of r"
  shows "fst (align r s h) = Inl PanicSliceBounds \<and> is_panic PanicSliceBounds"
proof -
  define xs where "xs = slice_read h s"
  from candidates_blocks [of xs r] obtain A B C
    where split: "sort_Sort Release_Less xs = A @ B @ C"
      and A: "\<forall>a\<in>set A. Compare (series_of r) (series_of a) < 0"
      and B: "\<forall>b\<in>set B. Compare (series_of r) (series_of b) = 0"
      and C: "\<forall>c\<in>set C. Compare (series_of r) (series_of c) > 0"
    by blast
  have "set B \<subseteq> set xs"
    using split set_sort_Sort [of Release_Less xs] by (metis Un_upper1 Un_upper2 set_append subset_trans)
  with no B have "B = []"
    unfolding xs_def [symmetric] using comp_zero [of r] by (cases B) auto
  then show ?thesis
    using align_blocks [OF wf split [unfolded xs_def] A B C] by simp
qed

theorem align_no_series_panics_witness:
  "wf_slice h_other (whole 2) \<and>
   slice_read h_other (whole 2) = [rel ''v1.3.0'' 0, rel ''v1.1.5'' 5] \<and>
   series_of (rel ''v1.3.0'' 0) \<noteq> series_of target \<and>
   series_of (rel ''v1.1.5'' 5) \<noteq> series_of target \<and>
   fst (align target (whole 2) h_other) = Inl PanicSliceBounds \<and> is_panic PanicSliceBounds"
proof -
  have h1: "wf_slice h_other (whole 2)"
    by (simp add: wf_slice_def h_other_def whole_def)
  have rd: "slice_read h_other (whole 2) = [rel ''v1.3.0'' 0, rel ''v1.1.5'' 5]"
    by code_simp
  have n1: "series_of (rel ''v1.3.0'' 0) \<noteq> series_of target"
    by code_simp
  have n2: "series_of (rel ''v1.1.5'' 5) \<noteq> series_of target"
    by code_simp
  have h2: "\<forall>c\<in>set (slice_read h_other (whole 2)). series_of c \<noteq> series_of target"
    unfolding rd using n1 n2 by simp
  show ?thesis
    by (intro conjI h1 rd n1 n2
          align_no_series_panics [OF h1 h2, THEN conjunct1]
          align_no_series_panics [OF h1 h2, THEN conjunct2])
qed

text \<open>The failing input in full, through \<open>HandleRelease\<close> itself: a dependency whose
  releases are all of other series than the target's.\<close>

theorem HandleRelease_no_series_panics:
  "fst (HandleRelease None no_failure package target (releases_of (whole 2)) h_other)
     = Inl PanicSliceBounds \<and> is_panic PanicSliceBounds"
  by code_simp

text \<open>
  Claim C8. The claim asks that the release sequences of the collection be unchanged after
  \<open>HandleRelease\<close>. \<open>sort.Sort(releaseList(candidates))\<close> sorts the slice taken from
  the map in place: on the example of the spec the call succeeds, and the backing array
  of the dependency's releases, which held them oldest first, holds them newest first
  afterwards. (\<open>LastN\<close> copies before it sorts; the source carries a note to copy here
  too.)
\<close>

theorem HandleRelease_reorders_collection:
  "HandleRelease None no_failure package target (releases_of (whole 3)) h_spec =
     (Inr [\<lparr>Name = ''eventing-crds.yaml'', URL = ''https://example/crds'', secondary = False\<rparr>,
           \<lparr>Name = ''eventing-core.yaml'', URL = ''https://example/core'', secondary = False\<rparr>],
      [[rel ''v1.2.9'' 15, rel ''v1.2.5'' 5, rel ''v1.2.0'' 0]]) \<and>
   slice_read h_spec (whole 3) = [rel ''v1.2.0'' 0, rel ''v1.2.5'' 5, rel ''v1.2.9'' 15] \<and>
   slice_read (snd (HandleRelease None no_failure package target (releases_of (whole 3)) h_spec))
     (whole 3) = [rel ''v1.2.9'' 15, rel ''v1.2.5'' 5, rel ''v1.2.0'' 0]"
  by code_simp

section \<open>Malformed tags: the claim\<close>

text \<open>
  Claim C5, as the source has it. No version comparison of the core has an error result.
  The series of a release with a malformed tag is the empty string; \<open>Release.Less\<close>
  never puts such a release before another one and puts exactly the releases with a
  valid tag before it; and two malformed tags compare equal and have the same series, so
  that a malformed candidate matches the series of a malformed target.
\<close>

theorem malformed_tag_is_ordered_silently:
  assumes "\<not> IsValid (TagName a)"
  shows "series_of a = [] \<and> \<not> Release_Less a b \<and>
    (Release_Less b a \<longleftrightarrow> IsValid (TagName b)) \<and>
    (\<not> IsValid (TagName b) \<longrightarrow>
       Compare (TagName a) (TagName b) = 0 \<and> series_of b = series_of a)"
proof -
  from assms have a: "parse (TagName a) = None"
    by (simp add: IsValid_def)
  show ?thesis
  proof (cases "parse (TagName b)")
    case None
    then show ?thesis
      using a by (simp add: series_of_def MajorMinor_invalid Release_Less_def Compare_def IsValid_def)
  next
    case (Some pb)
    then show ?thesis
      using a by (simp add: series_of_def MajorMinor_invalid Release_Less_def Compare_def IsValid_def)
  qed
qed

theorem malformed_tag_is_ordered_silently_witness:
  "\<not> IsValid (TagName (rel ''not-a-version'' 10)) \<and>
   IsValid (TagName (rel ''v1.0.0'' 0)) \<and>
   \<not> IsValid (TagName (rel ''also-bad'' 5)) \<and>
   series_of (rel ''not-a-version'' 10) = [] \<and>
   \<not> Release_Less (rel ''not-a-version'' 10) (rel ''v1.0.0'' 0) \<and>
   Release_Less (rel ''v1.0.0'' 0) (rel ''not-a-version'' 10) \<and>
   \<not> Release_Less (rel ''also-bad'' 5) (rel ''not-a-version'' 10) \<and>
   Compare (TagName (rel ''not-a-version'' 10)) (TagName (rel ''also-bad'' 5)) = 0 \<and>
   series_of (rel ''also-bad'' 5) = series_of (rel ''not-a-version'' 10)"
proof -
  have h1: "\<not> IsValid (TagName (rel ''not-a-version'' 10))"
    by code_simp
  have v: "IsValid (TagName (rel ''v1.0.0'' 0))"
    by code_simp
  have h2: "\<not> IsValid (TagName (rel ''also-bad'' 5))"
    by code_simp
  note valid = malformed_tag_is_ordered_silently [OF h1, of "rel ''v1.0.0'' 0"]
  note malformed = malformed_tag_is_ordered_silently [OF h1, of "rel ''also-bad'' 5"]
  show ?thesis
    using valid malformed h1 v h2 by blast
qed

text \<open>The claim as the spec words it (a malformed tag makes the comparison fail with an
  error, and is never treated as equal to another or ordered against a valid tag) fails:
  two malformed tags compare equal, a malformed tag compares below a valid one, and the
  alignment of a malformed target returns a malformed candidate.\<close>

theorem malformed_tag_counterexample:
  "\<not> IsValid ''not-a-version'' \<and> \<not> IsValid ''also-bad'' \<and>
   Compare ''not-a-version'' ''also-bad'' = 0 \<and>
   Compare ''not-a-version'' ''v1.3.0'' = - 1 \<and>
   Release_Less (rel ''v1.3.0'' 0) (rel ''not-a-version'' 10) \<and>
   fst (align (rel ''not-a-version'' 10) (whole 3) h_bad) = Inr (rel ''also-bad'' 5)"
  by code_simp

end
